theory Spec2Isabelle
  imports Main "HOL-Library.Word"
begin

section \<open>Python values used by the programs\<close>

text \<open>
  A Python \<open>str\<close> is a sequence of Unicode code points and \<open>len\<close> counts code points,
  so a string is a list of code-point numbers. \<open>str\<close> turns an ASCII literal of the
  theory into such a list.
\<close>

type_synonym codepoint = nat
type_synonym pystr = "codepoint list"

definition str :: "string \<Rightarrow> pystr" where
  "str s = map of_char s"

text \<open>\<open>str.isspace\<close> for one code point: the code points Python treats as whitespace.\<close>

definition isspace :: "codepoint \<Rightarrow> bool" where
  "isspace c \<longleftrightarrow>
     (9 \<le> c \<and> c \<le> 13) \<or> (28 \<le> c \<and> c \<le> 32) \<or> c = 133 \<or> c = 160 \<or> c = 5760 \<or>
     (8192 \<le> c \<and> c \<le> 8202) \<or> c = 8232 \<or> c = 8233 \<or> c = 8239 \<or> c = 8287 \<or> c = 12288"

text \<open>\<open>s.strip()\<close>: whitespace removed at both ends.\<close>

definition strip :: "pystr \<Rightarrow> pystr" where
  "strip s = rev (dropWhile isspace (rev (dropWhile isspace s)))"

text \<open>
  \<open>s[i:j]\<close> for Python integers: a negative bound counts from the end, and both bounds
  are clipped to the string.
\<close>

definition slice_bound :: "int \<Rightarrow> int \<Rightarrow> int" where
  "slice_bound n i = (if i < 0 then max 0 (n + i) else min i n)"

definition py_slice :: "'a list \<Rightarrow> int \<Rightarrow> int \<Rightarrow> 'a list" where
  "py_slice xs i j =
     (let n = int (length xs); lo = slice_bound n i; hi = slice_bound n j
      in take (nat (hi - lo)) (drop (nat lo) xs))"

section \<open>build_index.py: the chunker\<close>

definition CHUNK_SIZE :: int where
  "CHUNK_SIZE = 800"

definition CHUNK_OVERLAP :: int where
  "CHUNK_OVERLAP = 150"

text \<open>
  The \<open>while\<close> loop of \<open>chunk_text\<close>, with the two module constants it reads as the
  parameters \<open>S\<close> (chunk size) and \<open>ov\<close> (overlap). The state of the loop is \<open>start\<close>
  and the list \<open>chunks\<close>. The loop need not end (it does not when the overlap is not
  below the chunk size), so it lives in the option monad: \<open>None\<close> is a run that never
  returns.
\<close>

partial_function (option) chunk_loop ::
  "int \<Rightarrow> int \<Rightarrow> pystr \<Rightarrow> int \<Rightarrow> pystr list \<Rightarrow> pystr list option" where
  "chunk_loop S ov text start chunks =
     (let n = int (length text) in
      if start < n then
        (let end = min (start + S) n;
             chunk = strip (py_slice text start end);
             chunks1 = (if chunk \<noteq> [] then chunks @ [chunk] else chunks);
             start1 = end - ov;
             start2 = (if start1 < 0 then 0 else start1)
         in if end = n then Some chunks1
            else chunk_loop S ov text start2 chunks1)
      else Some chunks)"

declare chunk_loop.simps [code]

definition chunk_text_with :: "int \<Rightarrow> int \<Rightarrow> pystr \<Rightarrow> pystr list option" where
  "chunk_text_with S ov text = chunk_loop S ov text 0 []"

definition chunk_text :: "pystr \<Rightarrow> pystr list option" where
  "chunk_text text = chunk_text_with CHUNK_SIZE CHUNK_OVERLAP text"

text \<open>
  The same loop, recording the window \<open>(start, end)\<close> of every iteration before the
  slice is trimmed, instead of the trimmed chunk.
\<close>

partial_function (option) window_loop ::
  "int \<Rightarrow> int \<Rightarrow> int \<Rightarrow> int \<Rightarrow> (int \<times> int) list \<Rightarrow> (int \<times> int) list option" where
  "window_loop S ov n start ws =
     (if start < n then
        (let end = min (start + S) n;
             ws1 = ws @ [(start, end)];
             start1 = end - ov;
             start2 = (if start1 < 0 then 0 else start1)
         in if end = n then Some ws1
            else window_loop S ov n start2 ws1)
      else Some ws)"

declare window_loop.simps [code]

definition chunk_windows :: "int \<Rightarrow> int \<Rightarrow> pystr \<Rightarrow> (int \<times> int) list option" where
  "chunk_windows S ov text = window_loop S ov (int (length text)) 0 []"

text \<open>The chunk a window yields: the slice, trimmed; empty ones are dropped.\<close>

definition window_chunk :: "pystr \<Rightarrow> int \<times> int \<Rightarrow> pystr" where
  "window_chunk text w = strip (py_slice text (fst w) (snd w))"

definition surviving :: "pystr \<Rightarrow> (int \<times> int) list \<Rightarrow> pystr list" where
  "surviving text ws = filter (\<lambda>c. c \<noteq> []) (map (window_chunk text) ws)"

text \<open>
  What the run of the loop from \<open>start\<close> looks like, as a predicate on the list of
  windows: every window begins where the loop stands, ends at \<open>min (start + S) n\<close>, the
  run stops at the first window that reaches \<open>n\<close>, and otherwise goes on from
  \<open>end - ov\<close> clamped at 0.
\<close>

fun chain :: "int \<Rightarrow> int \<Rightarrow> int \<Rightarrow> int \<Rightarrow> (int \<times> int) list \<Rightarrow> bool" where
  "chain S ov n start [] \<longleftrightarrow> \<not> start < n"
| "chain S ov n start (w # ws) \<longleftrightarrow>
     start < n \<and> w = (start, min (start + S) n) \<and>
     (if snd w = n then ws = [] else chain S ov n (max 0 (snd w - ov)) ws)"

text \<open>The number of text positions two windows share.\<close>

definition overlap :: "int \<times> int \<Rightarrow> int \<times> int \<Rightarrow> nat" where
  "overlap v w = card ({fst v ..< snd v} \<inter> {fst w ..< snd w})"

section \<open>Errors and values shared by the programs\<close>

text \<open>
  The exceptions the modelled code can raise. \<open>SystemExit\<close> carries its message;
  \<open>ExternalError\<close> is any exception of the libraries, with its name.
\<close>

datatype py_error =
  SystemExit pystr | IndexError | AttributeError | UnicodeDecodeError | ExternalError pystr

text \<open>
  Sequencing of calls that may raise: the first exception ends the computation.
\<close>

definition and_then :: "py_error + 'a \<Rightarrow> ('a \<Rightarrow> py_error + 'b) \<Rightarrow> py_error + 'b" where
  "and_then r f = (case r of Inl e \<Rightarrow> Inl e | Inr v \<Rightarrow> f v)"

text \<open>\<open>str(i)\<close> for an integer: decimal digits, with a minus sign when negative.\<close>

fun digits :: "nat \<Rightarrow> pystr" where
  "digits n = (if n < 10 then [48 + n] else digits (n div 10) @ [48 + n mod 10])"

declare digits.simps [simp del]

definition str_int :: "int \<Rightarrow> pystr" where
  "str_int i = (if i < 0 then 45 # digits (nat (- i)) else digits (nat i))"

text \<open>
  The values a metadata field of the vector store can hold. A float is carried by its
  printed form, the only thing the programs use of it.
\<close>

datatype meta_value = MStr pystr | MInt int | MBool bool | MFloat pystr

type_synonym metadata = "pystr \<rightharpoonup> meta_value"

text \<open>How an f-string prints a metadata value (\<open>str\<close> of it).\<close>

fun format_value :: "meta_value \<Rightarrow> pystr" where
  "format_value (MStr s) = s"
| "format_value (MInt i) = str_int i"
| "format_value (MBool b) = (if b then str ''True'' else str ''False'')"
| "format_value (MFloat r) = r"

text \<open>\<open>d.get(key, default)\<close>.\<close>

definition dict_get :: "('k \<rightharpoonup> 'v) \<Rightarrow> 'k \<Rightarrow> 'v \<Rightarrow> 'v" where
  "dict_get d k dflt = (case d k of None \<Rightarrow> dflt | Some v \<Rightarrow> v)"

text \<open>\<open>xs[i] if i < len(xs) else d\<close>, for an index that is not negative.\<close>

definition item_or :: "'a list \<Rightarrow> nat \<Rightarrow> 'a \<Rightarrow> 'a" where
  "item_or xs i d = (if i < length xs then xs ! i else d)"

text \<open>\<open>sep.join(parts)\<close>.\<close>

fun join :: "pystr \<Rightarrow> pystr list \<Rightarrow> pystr" where
  "join sep [] = []"
| "join sep [x] = x"
| "join sep (x # y # ys) = x @ sep @ join sep (y # ys)"

section \<open>build_index.py: loading the documents\<close>

text \<open>
  The bytes of a file, and what the file system holds under a name: a regular file or
  a directory with its entries, in the order a scan of the directory lists them.
\<close>

type_synonym byte = "8 word"

datatype fs_node = RegularFile "byte list" | Directory "(pystr \<times> fs_node) list"

subsection \<open>Reading a file as text\<close>

text \<open>
  The \<open>errors\<close> argument of \<open>open\<close>: what the UTF-8 decoder does with bytes it cannot
  decode. \<open>strict\<close> raises, \<open>ignore\<close> leaves them out, \<open>replace\<close> puts U+FFFD in their
  place.
\<close>

datatype error_handler = Strict | Ignore | Replace

definition decoded :: "codepoint \<Rightarrow> py_error + pystr \<Rightarrow> py_error + pystr" where
  "decoded c rest = (case rest of Inl e \<Rightarrow> Inl e | Inr s \<Rightarrow> Inr (c # s))"

definition undecodable :: "error_handler \<Rightarrow> py_error + pystr \<Rightarrow> py_error + pystr" where
  "undecodable h rest =
     (case h of Strict \<Rightarrow> Inl UnicodeDecodeError | Ignore \<Rightarrow> rest | Replace \<Rightarrow> decoded 65533 rest)"

definition continuation :: "nat \<Rightarrow> bool" where
  "continuation b \<longleftrightarrow> 128 \<le> b \<and> b < 192"

text \<open>
  The second byte of a three-byte and of a four-byte sequence: a continuation byte that
  gives neither an overlong form, nor a surrogate, nor a code point above U+10FFFF.
\<close>

definition second_of_three :: "nat \<Rightarrow> nat \<Rightarrow> bool" where
  "second_of_three b0 b1 \<longleftrightarrow>
     continuation b1 \<and> (if b1 < 160 then b0 \<noteq> 224 else b0 \<noteq> 237)"

definition second_of_four :: "nat \<Rightarrow> nat \<Rightarrow> bool" where
  "second_of_four b0 b1 \<longleftrightarrow>
     continuation b1 \<and> (if b1 < 144 then b0 \<noteq> 240 else b0 \<noteq> 244)"

text \<open>
  The UTF-8 decoder on byte values. An undecodable stretch is the lead byte alone when
  the lead byte or the byte after it is wrong, the bytes read so far when a later
  continuation byte is wrong, and all that is left when the data ends inside a sequence;
  decoding goes on right after the stretch.
\<close>

fun utf8_units :: "error_handler \<Rightarrow> nat list \<Rightarrow> py_error + pystr" where
  "utf8_units h [] = Inr []"
| "utf8_units h (b0 # bs) =
     (if b0 < 128 then decoded b0 (utf8_units h bs)
      else if b0 < 194 \<or> 244 < b0 then undecodable h (utf8_units h bs)
      else if b0 < 224 then
        (case bs of
           [] \<Rightarrow> undecodable h (Inr [])
         | b1 # bs1 \<Rightarrow>
             if continuation b1
             then decoded ((b0 - 192) * 64 + (b1 - 128)) (utf8_units h bs1)
             else undecodable h (utf8_units h bs))
      else if b0 < 240 then
        (case bs of
           [] \<Rightarrow> undecodable h (Inr [])
         | b1 # bs1 \<Rightarrow>
             if \<not> second_of_three b0 b1 then undecodable h (utf8_units h bs)
             else
               (case bs1 of
                  [] \<Rightarrow> undecodable h (Inr [])
                | b2 # bs2 \<Rightarrow>
                    if continuation b2
                    then decoded ((b0 - 224) * 4096 + (b1 - 128) * 64 + (b2 - 128))
                           (utf8_units h bs2)
                    else undecodable h (utf8_units h bs1)))
      else
        (case bs of
           [] \<Rightarrow> undecodable h (Inr [])
         | b1 # bs1 \<Rightarrow>
             if \<not> second_of_four b0 b1 then undecodable h (utf8_units h bs)
             else
               (case bs1 of
                  [] \<Rightarrow> undecodable h (Inr [])
                | b2 # bs2 \<Rightarrow>
                    if \<not> continuation b2 then undecodable h (utf8_units h bs1)
                    else
                      (case bs2 of
                         [] \<Rightarrow> undecodable h (Inr [])
                       | b3 # bs3 \<Rightarrow>
                           if continuation b3
                           then decoded ((b0 - 240) * 262144 + (b1 - 128) * 4096 +
                                         (b2 - 128) * 64 + (b3 - 128))
                                  (utf8_units h bs3)
                           else undecodable h (utf8_units h bs2)))))"

definition utf8_decode :: "error_handler \<Rightarrow> byte list \<Rightarrow> py_error + pystr" where
  "utf8_decode h data = utf8_units h (map unat data)"

text \<open>Text mode with universal newlines: \<open>\r\n\<close> and a lone \<open>\r\<close> are read as \<open>\n\<close>.\<close>

fun translate_newlines :: "pystr \<Rightarrow> pystr" where
  "translate_newlines [] = []"
| "translate_newlines [c] = (if c = 13 then [10] else [c])"
| "translate_newlines (c # d # s) =
     (if c = 13 \<and> d = 10 then 10 # translate_newlines s
      else if c = 13 then 10 # translate_newlines (d # s)
      else c # translate_newlines (d # s))"

text \<open>\<open>open(path, "r", encoding="utf-8", errors="ignore").read()\<close> on a file with these bytes.\<close>

definition read_text :: "byte list \<Rightarrow> py_error + pystr" where
  "read_text data =
     (case utf8_decode Ignore data of Inl e \<Rightarrow> Inl e | Inr s \<Rightarrow> Inr (translate_newlines s))"

text \<open>
  The UTF-8 form of a code point, used to say what a decoder must give back: the byte
  values of one character.
\<close>

definition utf8_char :: "codepoint \<Rightarrow> nat list" where
  "utf8_char c =
     (if c < 128 then [c]
      else if c < 2048 then [192 + c div 64, 128 + c mod 64]
      else if c < 65536 then [224 + c div 4096, 128 + c div 64 mod 64, 128 + c mod 64]
      else [240 + c div 262144, 128 + c div 4096 mod 64, 128 + c div 64 mod 64, 128 + c mod 64])"

text \<open>The code points that have a UTF-8 form: up to U+10FFFF, surrogates excluded.\<close>

definition scalar :: "codepoint \<Rightarrow> bool" where
  "scalar c \<longleftrightarrow> c < 1114112 \<and> \<not> (55296 \<le> c \<and> c < 57344)"

subsection \<open>Paths\<close>

text \<open>\<open>os.path.join(a, b)\<close> and \<open>os.path.basename(p)\<close> on a POSIX system; 47 is the slash.\<close>

definition path_join :: "pystr \<Rightarrow> pystr \<Rightarrow> pystr" where
  "path_join a b =
     (if b \<noteq> [] \<and> hd b = 47 then b
      else if a = [] \<or> last a = 47 then a @ b
      else a @ [47] @ b)"

definition basename :: "pystr \<Rightarrow> pystr" where
  "basename p = rev (takeWhile (\<lambda>c. c \<noteq> 47) (rev p))"

text \<open>
  \<open>glob.glob(os.path.join(kb_dir, "*"))\<close>: the entries of the directory whose names do
  not begin with a dot (46), each as its path, here together with what the path leads
  to. A path that is not a directory has no entries.
\<close>

definition glob_star :: "pystr \<Rightarrow> fs_node option \<Rightarrow> (pystr \<times> fs_node) list" where
  "glob_star kb_dir entry =
     (case entry of
        Some (Directory entries) \<Rightarrow>
          map (\<lambda>(name, node). (path_join kb_dir name, node))
            (filter (\<lambda>(name, node). name \<noteq> [] \<and> hd name \<noteq> 46) entries)
      | _ \<Rightarrow> [])"

text \<open>
  \<open>path.lower()\<close> on the ASCII letters, which is all that the test for the suffixes
  \<open>.md\<close> and \<open>.txt\<close> can see, and \<open>s.endswith(suffix)\<close>.
\<close>

definition lower :: "pystr \<Rightarrow> pystr" where
  "lower s = map (\<lambda>c. if 65 \<le> c \<and> c \<le> 90 then c + 32 else c) s"

definition endswith :: "pystr \<Rightarrow> pystr \<Rightarrow> bool" where
  "endswith s suffix \<longleftrightarrow> length suffix \<le> length s \<and> drop (length s - length suffix) s = suffix"

subsection \<open>Documents\<close>

record doc =
  doc_path :: pystr
  doc_filename :: pystr
  doc_text :: pystr
  doc_hash :: pystr

text \<open>
  \<open>file_hash(path)\<close>: the first 16 characters of the SHA-256 hex digest of the bytes of
  the file. The digest comes from \<open>hashlib\<close>; it is the parameter \<open>sha256_hex\<close>.
\<close>

definition file_hash :: "(byte list \<Rightarrow> pystr) \<Rightarrow> byte list \<Rightarrow> pystr" where
  "file_hash sha256_hex data = take 16 (sha256_hex data)"

text \<open>
  The loop of \<open>load_docs\<close> over the paths of the glob: directories and other suffixes
  are skipped, the file is read as text, an empty text is skipped.
\<close>

fun load_loop ::
  "(byte list \<Rightarrow> pystr) \<Rightarrow> (pystr \<times> fs_node) list \<Rightarrow> doc list \<Rightarrow> py_error + doc list" where
  "load_loop sha256_hex [] docs = Inr docs"
| "load_loop sha256_hex ((path, node) # paths) docs =
     (case node of
        Directory entries \<Rightarrow> load_loop sha256_hex paths docs
      | RegularFile data \<Rightarrow>
          if \<not> (endswith (lower path) (str ''.md'') \<or> endswith (lower path) (str ''.txt''))
          then load_loop sha256_hex paths docs
          else
            (case read_text data of
               Inl e \<Rightarrow> Inl e
             | Inr raw_text \<Rightarrow>
                 if length raw_text = 0 then load_loop sha256_hex paths docs
                 else load_loop sha256_hex paths
                        (docs @ [\<lparr>doc_path = path, doc_filename = basename path,
                                  doc_text = raw_text,
                                  doc_hash = file_hash sha256_hex data\<rparr>])))"

definition load_docs ::
  "(byte list \<Rightarrow> pystr) \<Rightarrow> pystr \<Rightarrow> fs_node option \<Rightarrow> py_error + doc list" where
  "load_docs sha256_hex kb_dir entry = load_loop sha256_hex (glob_star kb_dir entry) []"

section \<open>build_index.py: the index build\<close>

definition KB_DIR :: pystr where
  "KB_DIR = str ''kb_docs''"

definition COLLECTION_NAME :: pystr where
  "COLLECTION_NAME = str ''fincorp_kb''"

text \<open>The id of chunk \<open>i\<close> of a document: \<open>f"{doc['filename']}::{doc['hash']}::{i}"\<close>.\<close>

definition chunk_id :: "doc \<Rightarrow> nat \<Rightarrow> pystr" where
  "chunk_id d i = doc_filename d @ str ''::'' @ doc_hash d @ str ''::'' @ str_int (int i)"

text \<open>
  The three lists \<open>ids\<close>, \<open>texts\<close> and \<open>metadatas\<close> that the build fills (the fields
  \<open>row_ids\<close>, \<open>row_texts\<close> and \<open>row_metadatas\<close> of one record), and the two
  loops that fill them: over the chunks of one document with their indices, and over
  the documents.
\<close>

record index_rows =
  row_ids :: "pystr list"
  row_texts :: "pystr list"
  row_metadatas :: "metadata list"

fun add_chunks :: "doc \<Rightarrow> nat \<Rightarrow> pystr list \<Rightarrow> index_rows \<Rightarrow> index_rows" where
  "add_chunks d i [] rows = rows"
| "add_chunks d i (chunk # chunks) rows =
     (let cid = chunk_id d i
      in add_chunks d (Suc i) chunks
           \<lparr>row_ids = row_ids rows @ [cid],
            row_texts = row_texts rows @ [chunk],
            row_metadatas = row_metadatas rows @
              [[str ''source_file'' \<mapsto> MStr (doc_filename d),
                str ''source_path'' \<mapsto> MStr (doc_path d),
                str ''chunk_index'' \<mapsto> MInt (int i)]]\<rparr>)"

fun index_docs :: "doc list \<Rightarrow> index_rows \<Rightarrow> index_rows option" where
  "index_docs [] rows = Some rows"
| "index_docs (d # docs) rows =
     (case chunk_text (doc_text d) of
        None \<Rightarrow> None
      | Some chunks \<Rightarrow> index_docs docs (add_chunks d 0 chunks rows))"

text \<open>
  What \<open>main\<close> uses from outside the repository: loading the embedding model, which
  gives the function \<open>model.encode\<close>, and the client of the persistent store. The store
  is a state of some type \<open>'s\<close>; every call on it returns the exception it raised, if
  any, and the state it leaves.
\<close>

record ('s, 'e) externals =
  load_model :: "py_error + (pystr list \<Rightarrow> py_error + 'e list)"
  persistent_client :: "'s \<Rightarrow> py_error option \<times> 's"
  delete_collection :: "pystr \<Rightarrow> 's \<Rightarrow> py_error option \<times> 's"
  create_collection :: "pystr \<Rightarrow> 's \<Rightarrow> py_error option \<times> 's"
  collection_add :: "pystr \<Rightarrow> index_rows \<Rightarrow> 'e list \<Rightarrow> 's \<Rightarrow> py_error option \<times> 's"

text \<open>\<open>os.path.isdir\<close> on what the file system holds at a path.\<close>

definition isdir :: "fs_node option \<Rightarrow> bool" where
  "isdir entry = (case entry of Some (Directory entries) \<Rightarrow> True | _ \<Rightarrow> False)"

text \<open>What \<open>except Exception\<close> catches: everything but \<open>SystemExit\<close>.\<close>

definition is_Exception :: "py_error \<Rightarrow> bool" where
  "is_Exception e = (case e of SystemExit msg \<Rightarrow> False | _ \<Rightarrow> True)"

text \<open>The two messages of \<open>main\<close>; 10060 is the cross mark they begin with.\<close>

definition kb_not_found :: pystr where
  "kb_not_found = [10060] @ str '' KB directory not found: '' @ KB_DIR"

definition no_documents :: pystr where
  "no_documents = [10060] @ str '' No documents found (or all empty).''"

text \<open>
  The end of \<open>main\<close>: \<open>create_collection\<close>, then \<open>collection.add\<close> with all rows at once.
\<close>

definition create_and_add ::
  "('s, 'e) externals \<Rightarrow> index_rows \<Rightarrow> 'e list \<Rightarrow> 's \<Rightarrow> py_error option \<times> 's" where
  "create_and_add ext rows embeddings s1 =
     (case create_collection ext COLLECTION_NAME s1 of
        (Some e, s2) \<Rightarrow> (Some e, s2)
      | (None, s2) \<Rightarrow> collection_add ext COLLECTION_NAME rows embeddings s2)"

text \<open>
  \<open>main()\<close>, given what is at \<open>KB_DIR\<close> and the state of the store. The result is the
  exception that ended the run, if any, and the state of the store at the end; \<open>None\<close>
  is a run that never returns. The calls of \<open>print\<close> are left out. An exception of
  \<open>delete_collection\<close> is swallowed by \<open>except Exception: pass\<close>.
\<close>

definition main ::
  "(byte list \<Rightarrow> pystr) \<Rightarrow> ('s, 'e) externals \<Rightarrow> fs_node option \<Rightarrow> 's \<Rightarrow>
   (py_error option \<times> 's) option" where
  "main sha256_hex ext kb store =
     (if \<not> isdir kb then Some (Some (SystemExit kb_not_found), store)
      else
        case load_docs sha256_hex KB_DIR kb of
          Inl e \<Rightarrow> Some (Some e, store)
        | Inr docs \<Rightarrow>
            if docs = [] then Some (Some (SystemExit no_documents), store)
            else
              case load_model ext of
                Inl e \<Rightarrow> Some (Some e, store)
              | Inr encode \<Rightarrow>
                  (case index_docs docs \<lparr>row_ids = [], row_texts = [], row_metadatas = []\<rparr> of
                     None \<Rightarrow> None
                   | Some rows \<Rightarrow>
                       (case encode (row_texts rows) of
                          Inl e \<Rightarrow> Some (Some e, store)
                        | Inr embeddings \<Rightarrow>
                            (case persistent_client ext store of
                               (Some e, s0) \<Rightarrow> Some (Some e, s0)
                             | (None, s0) \<Rightarrow>
                                 (case delete_collection ext COLLECTION_NAME s0 of
                                    (None, s1) \<Rightarrow> Some (create_and_add ext rows embeddings s1)
                                  | (Some e, s1) \<Rightarrow>
                                      if is_Exception e
                                      then Some (create_and_add ext rows embeddings s1)
                                      else Some (Some e, s1))))))"

section \<open>geminitestv1.py and geminitestv2.py: retrieval\<close>

text \<open>
  What \<open>collection.query\<close> returns: a dictionary whose entries hold one list per query
  embedding. A field is \<open>None\<close> here when the dictionary has no such key. Inside the
  lists, the store puts Python's \<open>None\<close> where a record was stored without a document
  or without any metadata.
\<close>

record query_result =
  qr_ids :: "pystr list list option"
  qr_documents :: "pystr option list list option"
  qr_metadatas :: "metadata option list list option"

text \<open>\<open>results.get(key, [[]])[0]\<close>: indexing an empty list raises.\<close>

definition first_batch :: "'a list list option \<Rightarrow> py_error + 'a list" where
  "first_batch field =
     (case (case field of None \<Rightarrow> [[]] | Some v \<Rightarrow> v) of
        [] \<Rightarrow> Inl IndexError
      | batch # _ \<Rightarrow> Inr batch)"

record citation =
  cit_id :: pystr
  cit_source_file :: meta_value
  cit_chunk_index :: meta_value

text \<open>How an f-string prints a document of the store, which may be \<open>None\<close>.\<close>

definition format_doc :: "pystr option \<Rightarrow> pystr" where
  "format_doc doc = (case doc of None \<Rightarrow> str ''None'' | Some d \<Rightarrow> d)"

text \<open>
  The block of one result:
  \<open>f"[{i+1}] (source: {source_file}, chunk: {chunk_index})\n{doc}"\<close>.
\<close>

definition context_block :: "nat \<Rightarrow> meta_value \<Rightarrow> meta_value \<Rightarrow> pystr option \<Rightarrow> pystr" where
  "context_block i source_file chunk_index doc =
     str ''['' @ str_int (int i + 1) @ str ''] (source: '' @ format_value source_file @
     str '', chunk: '' @ format_value chunk_index @ str '')'' @ [10] @ format_doc doc"

text \<open>The delimiter between blocks, \<open>"\n\n---\n\n"\<close>.\<close>

definition block_separator :: pystr where
  "block_separator = [10, 10] @ str ''---'' @ [10, 10]"

subsection \<open>geminitestv1.py\<close>

text \<open>
  The \<open>for i, doc in enumerate(docs)\<close> loop of \<open>retrieve_context\<close>: \<open>i\<close> is the index of
  \<open>doc\<close>, the first argument list holds the documents still to visit. Calling \<open>get\<close> on a
  metadata entry that is \<open>None\<close> raises \<open>AttributeError\<close>.
\<close>

fun v1_retrieve_loop ::
  "nat \<Rightarrow> pystr option list \<Rightarrow> metadata option list \<Rightarrow> pystr list \<Rightarrow>
   citation list \<Rightarrow> pystr list \<Rightarrow> py_error + (citation list \<times> pystr list)" where
  "v1_retrieve_loop i [] metas ids citations context_blocks = Inr (citations, context_blocks)"
| "v1_retrieve_loop i (doc # docs) metas ids citations context_blocks =
     (let meta = item_or metas i (Some Map.empty);
          cid = item_or ids i (str ''chunk_'' @ str_int (int i))
      in case meta of
           None \<Rightarrow> Inl AttributeError
         | Some m \<Rightarrow>
             (let source_file = dict_get m (str ''source_file'') (MStr (str ''unknown''));
                  chunk_index = dict_get m (str ''chunk_index'') (MInt (int i))
              in v1_retrieve_loop (Suc i) docs metas ids
                   (citations @
                      [\<lparr>cit_id = cid, cit_source_file = source_file,
                        cit_chunk_index = chunk_index\<rparr>])
                   (context_blocks @ [context_block i source_file chunk_index doc])))"

text \<open>
  \<open>retrieve_context(query, top_k)\<close>. The embedder and the collection are outside the
  repository: \<open>encode\<close> stands for \<open>model.encode\<close> and \<open>query_collection\<close> for
  \<open>collection.query\<close> with the given embeddings and \<open>n_results\<close>; either may raise.
\<close>

definition v1_retrieve_context ::
  "(pystr list \<Rightarrow> py_error + 'e list) \<Rightarrow> ('e list \<Rightarrow> int \<Rightarrow> py_error + query_result) \<Rightarrow>
   pystr \<Rightarrow> int \<Rightarrow> py_error + (pystr \<times> citation list)" where
  "v1_retrieve_context encode query_collection query top_k =
     and_then (encode [query]) (\<lambda>embs.
     and_then (case embs of [] \<Rightarrow> Inl IndexError | q_emb # _ \<Rightarrow> Inr q_emb) (\<lambda>q_emb.
     and_then (query_collection [q_emb] top_k) (\<lambda>results.
     and_then (first_batch (qr_documents results)) (\<lambda>docs.
     and_then (first_batch (qr_metadatas results)) (\<lambda>metas.
     and_then (first_batch (qr_ids results)) (\<lambda>ids.
     and_then (v1_retrieve_loop 0 docs metas ids [] []) (\<lambda>(citations, context_blocks).
     Inr (strip (join block_separator context_blocks), citations))))))))"

subsection \<open>geminitestv2.py\<close>

fun v2_retrieve_loop ::
  "nat \<Rightarrow> pystr option list \<Rightarrow> metadata option list \<Rightarrow> pystr list \<Rightarrow>
   citation list \<Rightarrow> pystr list \<Rightarrow> py_error + (citation list \<times> pystr list)" where
  "v2_retrieve_loop i [] metas ids citations context_blocks = Inr (citations, context_blocks)"
| "v2_retrieve_loop i (doc # docs) metas ids citations context_blocks =
     (let meta = item_or metas i (Some Map.empty);
          cid = item_or ids i (str ''chunk_'' @ str_int (int i))
      in case meta of
           None \<Rightarrow> Inl AttributeError
         | Some m \<Rightarrow>
             (let source_file = dict_get m (str ''source_file'') (MStr (str ''unknown''));
                  chunk_index = dict_get m (str ''chunk_index'') (MInt (int i))
              in v2_retrieve_loop (Suc i) docs metas ids
                   (citations @
                      [\<lparr>cit_id = cid, cit_source_file = source_file,
                        cit_chunk_index = chunk_index\<rparr>])
                   (context_blocks @ [context_block i source_file chunk_index doc])))"

definition v2_retrieve_context ::
  "(pystr list \<Rightarrow> py_error + 'e list) \<Rightarrow> ('e list \<Rightarrow> int \<Rightarrow> py_error + query_result) \<Rightarrow>
   pystr \<Rightarrow> int \<Rightarrow> py_error + (pystr \<times> citation list)" where
  "v2_retrieve_context encode query_collection query top_k =
     and_then (encode [query]) (\<lambda>embs.
     and_then (case embs of [] \<Rightarrow> Inl IndexError | q_emb # _ \<Rightarrow> Inr q_emb) (\<lambda>q_emb.
     and_then (query_collection [q_emb] top_k) (\<lambda>results.
     and_then (first_batch (qr_documents results)) (\<lambda>docs.
     and_then (first_batch (qr_metadatas results)) (\<lambda>metas.
     and_then (first_batch (qr_ids results)) (\<lambda>ids.
     and_then (v2_retrieve_loop 0 docs metas ids [] []) (\<lambda>(citations, context_blocks).
     Inr (strip (join block_separator context_blocks), citations))))))))"

section \<open>Notions used to state the properties of the index build\<close>

text \<open>
  What \<open>hashlib\<close> promises of a SHA-256 hex digest: 64 characters, each a lower-case
  hexadecimal digit.
\<close>

definition hex_digest :: "(byte list \<Rightarrow> pystr) \<Rightarrow> bool" where
  "hex_digest sha256_hex \<longleftrightarrow>
     (\<forall>data. length (sha256_hex data) = 64 \<and>
             set (sha256_hex data) \<subseteq> set (str ''0123456789abcdef''))"

text \<open>
  What a file system promises of the entries of one directory: the names are pairwise
  different, not empty, and hold no slash.
\<close>

definition valid_entries :: "(pystr \<times> fs_node) list \<Rightarrow> bool" where
  "valid_entries entries \<longleftrightarrow>
     distinct (map fst entries) \<and> (\<forall>name\<in>set (map fst entries). name \<noteq> [] \<and> 47 \<notin> set name)"

text \<open>
  The paths that \<open>load_docs\<close> turns into a document, and the document it makes of one:
  a regular file with one of the two suffixes whose text is not empty.
\<close>

definition text_of :: "byte list \<Rightarrow> pystr" where
  "text_of data = (case read_text data of Inl e \<Rightarrow> [] | Inr s \<Rightarrow> s)"

fun eligible :: "pystr \<times> fs_node \<Rightarrow> bool" where
  "eligible (path, Directory entries) = False"
| "eligible (path, RegularFile data) \<longleftrightarrow>
     (endswith (lower path) (str ''.md'') \<or> endswith (lower path) (str ''.txt'')) \<and>
     text_of data \<noteq> []"

fun doc_of :: "(byte list \<Rightarrow> pystr) \<Rightarrow> pystr \<times> fs_node \<Rightarrow> doc" where
  "doc_of sha256_hex (path, node) =
     \<lparr>doc_path = path, doc_filename = basename path,
      doc_text = (case node of RegularFile data \<Rightarrow> text_of data | Directory entries \<Rightarrow> []),
      doc_hash = (case node of RegularFile data \<Rightarrow> file_hash sha256_hex data
                  | Directory entries \<Rightarrow> [])\<rparr>"

text \<open>The chunks of a document (\<open>chunk_text\<close> always returns with the module constants).\<close>

definition doc_chunks :: "doc \<Rightarrow> pystr list" where
  "doc_chunks d = (case chunk_text (doc_text d) of None \<Rightarrow> [] | Some chunks \<Rightarrow> chunks)"

text \<open>
  A file cut into pieces: a validly encoded character, or a stretch of bytes that is
  dropped. A cut is right when every character piece is a code point with a UTF-8 form,
  standing in the file as that form, and no byte of a dropped stretch is a place where
  the UTF-8 form of any code point begins (\<open>begins_char\<close> on the bytes of the file from
  that byte on). Every file has such a cut, and all such cuts of one file hold the same
  characters.
\<close>

datatype piece = Char codepoint | Dropped "nat list"

fun piece_bytes :: "piece list \<Rightarrow> nat list" where
  "piece_bytes [] = []"
| "piece_bytes (Char c # pieces) = utf8_char c @ piece_bytes pieces"
| "piece_bytes (Dropped bs # pieces) = bs @ piece_bytes pieces"

definition begins_char :: "nat list \<Rightarrow> bool" where
  "begins_char bs \<longleftrightarrow> (\<exists>c rest. scalar c \<and> bs = utf8_char c @ rest)"

fun none_begins :: "nat list \<Rightarrow> nat list \<Rightarrow> bool" where
  "none_begins [] rest \<longleftrightarrow> True"
| "none_begins (b # bs) rest \<longleftrightarrow> \<not> begins_char (b # bs @ rest) \<and> none_begins bs rest"

fun cut_ok :: "piece list \<Rightarrow> bool" where
  "cut_ok [] \<longleftrightarrow> True"
| "cut_ok (Char c # pieces) \<longleftrightarrow> scalar c \<and> cut_ok pieces"
| "cut_ok (Dropped bs # pieces) \<longleftrightarrow>
     bs \<noteq> [] \<and> none_begins bs (piece_bytes pieces) \<and> cut_ok pieces"

fun kept_chars :: "piece list \<Rightarrow> pystr" where
  "kept_chars [] = []"
| "kept_chars (Char c # pieces) = c # kept_chars pieces"
| "kept_chars (Dropped bs # pieces) = kept_chars pieces"

text \<open>
  One step of the decoder, for the proofs: the piece at the head of the bytes \<open>b0 # bs\<close>
  and the bytes after it.
\<close>

definition utf8_step :: "nat \<Rightarrow> nat list \<Rightarrow> piece \<times> nat list" where
  "utf8_step b0 bs =
     (if b0 < 128 then (Char b0, bs)
      else if b0 < 194 \<or> 244 < b0 then (Dropped [b0], bs)
      else if b0 < 224 then
        (case bs of
           [] \<Rightarrow> (Dropped [b0], [])
         | b1 # bs1 \<Rightarrow>
             if continuation b1 then (Char ((b0 - 192) * 64 + (b1 - 128)), bs1)
             else (Dropped [b0], bs))
      else if b0 < 240 then
        (case bs of
           [] \<Rightarrow> (Dropped [b0], [])
         | b1 # bs1 \<Rightarrow>
             if \<not> second_of_three b0 b1 then (Dropped [b0], bs)
             else
               (case bs1 of
                  [] \<Rightarrow> (Dropped [b0, b1], [])
                | b2 # bs2 \<Rightarrow>
                    if continuation b2
                    then (Char ((b0 - 224) * 4096 + (b1 - 128) * 64 + (b2 - 128)), bs2)
                    else (Dropped [b0, b1], bs1)))
      else
        (case bs of
           [] \<Rightarrow> (Dropped [b0], [])
         | b1 # bs1 \<Rightarrow>
             if \<not> second_of_four b0 b1 then (Dropped [b0], bs)
             else
               (case bs1 of
                  [] \<Rightarrow> (Dropped [b0, b1], [])
                | b2 # bs2 \<Rightarrow>
                    if \<not> continuation b2 then (Dropped [b0, b1], bs1)
                    else
                      (case bs2 of
                         [] \<Rightarrow> (Dropped [b0, b1, b2], [])
                       | b3 # bs3 \<Rightarrow>
                           if continuation b3
                           then (Char ((b0 - 240) * 262144 + (b1 - 128) * 4096 +
                                       (b2 - 128) * 64 + (b3 - 128)), bs3)
                           else (Dropped [b0, b1, b2], bs2)))))"

section \<open>Sample data\<close>

text \<open>
  A toy embedder (the length of each text) and query results of the store: one whose
  second record has an empty metadata dictionary, one whose record was stored without
  any metadata, one whose second record was stored without any metadata, one whose
  metadata list is shorter than its document list, and one with no record at all.
\<close>

definition demo_encode :: "pystr list \<Rightarrow> py_error + nat list" where
  "demo_encode texts = Inr (map length texts)"

definition demo_results :: query_result where
  "demo_results =
     \<lparr>qr_ids = Some [[str ''a.md::0123456789abcdef::0'', str ''b.txt::fedcba9876543210::3'']],
      qr_documents = Some [[Some (str ''alpha''), Some (str ''beta'')]],
      qr_metadatas =
        Some [[Some [str ''source_file'' \<mapsto> MStr (str ''a.md''), str ''chunk_index'' \<mapsto> MInt 0],
               Some Map.empty]]\<rparr>"

definition bare_results :: query_result where
  "bare_results =
     \<lparr>qr_ids = Some [[str ''note-1'']],
      qr_documents = Some [[Some (str ''alpha'')]],
      qr_metadatas = Some [[None]]\<rparr>"

definition mixed_results :: query_result where
  "mixed_results =
     \<lparr>qr_ids = Some [[str ''a.md::0123456789abcdef::0'', str ''note-1'']],
      qr_documents = Some [[Some (str ''alpha''), Some (str ''beta'')]],
      qr_metadatas =
        Some [[Some [str ''source_file'' \<mapsto> MStr (str ''a.md''), str ''chunk_index'' \<mapsto> MInt 0],
               None]]\<rparr>"

definition short_results :: query_result where
  "short_results =
     \<lparr>qr_ids = Some [[str ''note-1'']],
      qr_documents = Some [[Some (str ''alpha'')]],
      qr_metadatas = Some [[]]\<rparr>"

definition empty_results :: query_result where
  "empty_results = \<lparr>qr_ids = Some [[]], qr_documents = Some [[]], qr_metadatas = Some [[]]\<rparr>"

definition demo_collection :: "query_result \<Rightarrow> nat list \<Rightarrow> int \<Rightarrow> py_error + query_result" where
  "demo_collection results embeddings n_results = Inr results"

text \<open>
  A stand-in for the digest (64 times the hex digit a or b, by the parity of the length),
  and a store that counts the calls made on it, with an embedder that cannot fail.
\<close>

definition toy_sha256 :: "byte list \<Rightarrow> pystr" where
  "toy_sha256 data = replicate 64 (if even (length data) then 97 else 98)"

definition counting_store :: "(nat, nat) externals" where
  "counting_store =
     \<lparr>load_model = Inr (\<lambda>texts. Inr (map length texts)),
      persistent_client = (\<lambda>s. (None, Suc s)),
      delete_collection = (\<lambda>name s. (None, Suc s)),
      create_collection = (\<lambda>name s. (None, Suc s)),
      collection_add = (\<lambda>name rows embeddings s. (None, Suc s))\<rparr>"

text \<open>A knowledge-base directory: two text files, a hidden file, an empty file and a directory.\<close>

definition demo_dir :: "(pystr \<times> fs_node) list" where
  "demo_dir =
     [(str ''a.md'', RegularFile [65, 66]),
      (str ''.hidden.txt'', RegularFile [67]),
      (str ''empty.txt'', RegularFile []),
      (str ''b.TXT'', RegularFile [67]),
      (str ''notes'', Directory [])]"

text \<open>
  A file with undecodable bytes, alone in its directory: \<open>A\<close>, the byte FF, \<open>e\<close> with
  acute accent (C3 A9), the first two bytes E2 82 of a three-byte form, \<open>B\<close>.
\<close>

definition broken_file :: "byte list" where
  "broken_file = [65, 255, 195, 169, 226, 130, 66]"

definition broken_dir :: "(pystr \<times> fs_node) list" where
  "broken_dir = [(str ''a.txt'', RegularFile broken_file)]"

section \<open>Properties of the chunker\<close>

lemma surviving_Cons:
  "surviving text (w # ws) =
     (if window_chunk text w \<noteq> [] then [window_chunk text w] else []) @ surviving text ws"
  by (simp add: surviving_def)

lemma loops_run:
  assumes "ov < S"
  shows "\<exists>ws. chain S ov (int (length text)) start ws \<and>
              (\<forall>acc. window_loop S ov (int (length text)) start acc = Some (acc @ ws)) \<and>
              (\<forall>chunks. chunk_loop S ov text start chunks = Some (chunks @ surviving text ws))"
proof (induction "nat (int (length text) - start)" arbitrary: start rule: less_induct)
  case less
  let ?n = "int (length text)"
  show ?case
  proof (cases "start < ?n")
    case False
    have "chain S ov ?n start []" using False by simp
    moreover have "\<forall>acc. window_loop S ov ?n start acc = Some (acc @ [])"
      using False by (subst window_loop.simps) simp
    moreover have "\<forall>chunks. chunk_loop S ov text start chunks = Some (chunks @ surviving text [])"
      using False by (subst chunk_loop.simps) (simp add: surviving_def)
    ultimately show ?thesis by blast
  next
    case True
    define e where "e = min (start + S) ?n"
    show ?thesis
    proof (cases "e = ?n")
      case True
      have "chain S ov ?n start [(start, e)]"
        using \<open>start < ?n\<close> True by (simp add: e_def)
      moreover have "\<forall>acc. window_loop S ov ?n start acc = Some (acc @ [(start, e)])"
        using \<open>start < ?n\<close> True by (subst window_loop.simps) (simp add: e_def Let_def)
      moreover have "\<forall>chunks. chunk_loop S ov text start chunks
                       = Some (chunks @ surviving text [(start, e)])"
        using \<open>start < ?n\<close> True
        by (subst chunk_loop.simps) (simp add: e_def Let_def surviving_def window_chunk_def)
      ultimately show ?thesis by blast
    next
      case False
      define s2 where "s2 = max 0 (e - ov)"
      have e: "e = start + S" using False unfolding e_def by linarith
      have "start < s2" using assms by (simp add: s2_def e)
      then have "nat (?n - s2) < nat (?n - start)" using \<open>start < ?n\<close> by simp
      from less[OF this] obtain ws where
        c: "chain S ov ?n s2 ws" and
        w: "\<And>acc. window_loop S ov ?n s2 acc = Some (acc @ ws)" and
        k: "\<And>chunks. chunk_loop S ov text s2 chunks = Some (chunks @ surviving text ws)"
        by blast
      have s2': "(if e - ov < 0 then 0 else e - ov) = s2" by (simp add: s2_def max_def)
      have "chain S ov ?n start ((start, e) # ws)"
        using \<open>start < ?n\<close> False c by (simp add: e_def [symmetric] s2_def [symmetric])
      moreover have "\<forall>acc. window_loop S ov ?n start acc = Some (acc @ (start, e) # ws)"
      proof
        fix acc
        have "window_loop S ov ?n start acc = window_loop S ov ?n s2 (acc @ [(start, e)])"
          using \<open>start < ?n\<close> False s2'
          by (subst window_loop.simps) (simp add: e_def [symmetric] Let_def)
        then show "window_loop S ov ?n start acc = Some (acc @ (start, e) # ws)"
          by (simp add: w)
      qed
      moreover have "\<forall>chunks. chunk_loop S ov text start chunks
                       = Some (chunks @ surviving text ((start, e) # ws))"
      proof
        fix chunks
        let ?c = "window_chunk text (start, e)"
        have "chunk_loop S ov text start chunks
                = chunk_loop S ov text s2 (if ?c \<noteq> [] then chunks @ [?c] else chunks)"
          using \<open>start < ?n\<close> False s2'
          by (subst chunk_loop.simps) (simp add: e_def [symmetric] Let_def window_chunk_def)
        then show "chunk_loop S ov text start chunks
                = Some (chunks @ surviving text ((start, e) # ws))"
          by (simp add: k surviving_Cons)
      qed
      ultimately show ?thesis by blast
    qed
  qed
qed


lemma successively_nth:
  "successively P xs \<Longrightarrow> Suc i < length xs \<Longrightarrow> P (xs ! i) (xs ! Suc i)"
proof (induction xs arbitrary: i)
  case Nil
  then show ?case by simp
next
  case (Cons x xs)
  then show ?case by (cases i; cases xs) auto
qed

lemma chain_break_last:
  "chain S ov n start ws \<Longrightarrow> i < length ws \<Longrightarrow> snd (ws ! i) = n \<Longrightarrow> Suc i = length ws"
proof (induction ws arbitrary: start i)
  case Nil
  then show ?case by simp
next
  case (Cons w ws)
  show ?case
  proof (cases i)
    case 0
    with Cons.prems show ?thesis by auto
  next
    case (Suc j)
    with Cons.prems have "snd w \<noteq> n \<Longrightarrow> Suc j = length ws"
      using Cons.IH [of "max 0 (snd w - ov)" j] by auto
    moreover have "snd w = n \<Longrightarrow> False" using Cons.prems Suc by auto
    ultimately show ?thesis using Suc by auto
  qed
qed

lemma chain_bounds:
  "chain S ov n start ws \<Longrightarrow> 0 \<le> S \<Longrightarrow> 0 \<le> start \<Longrightarrow> w \<in> set ws \<Longrightarrow>
     0 \<le> fst w \<and> fst w \<le> snd w \<and> snd w \<le> n \<and> snd w - fst w \<le> S"
proof (induction ws arbitrary: start)
  case Nil
  then show ?case by simp
next
  case (Cons v ws)
  show ?case
  proof (cases "w = v")
    case True
    with Cons.prems show ?thesis by auto
  next
    case False
    with Cons.prems have "w \<in> set ws" "snd v \<noteq> n" by auto
    with Cons.prems Cons.IH [of "max 0 (snd v - ov)"] show ?thesis by auto
  qed
qed

lemma chain_cover:
  "chain S ov n start ws \<Longrightarrow> 0 \<le> ov \<Longrightarrow> ov < S \<Longrightarrow> 0 \<le> start \<Longrightarrow>
     (\<Union>w\<in>set ws. {fst w ..< snd w}) = {start ..< n}"
proof (induction ws arbitrary: start)
  case Nil
  then show ?case by simp
next
  case (Cons v ws)
  show ?case
  proof (cases "snd v = n")
    case True
    with Cons.prems show ?thesis by auto
  next
    case False
    with Cons.prems have v: "v = (start, start + S)" "start + S < n"
      and c: "chain S ov n (max 0 (start + S - ov)) ws" by (auto simp: min_def split: if_splits)
    have m: "max 0 (start + S - ov) = start + S - ov" using Cons.prems by simp
    have "(\<Union>w\<in>set ws. {fst w ..< snd w}) = {start + S - ov ..< n}"
      using Cons.IH [OF c [unfolded m]] Cons.prems by simp
    then have "(\<Union>w\<in>set (v # ws). {fst w ..< snd w}) = {start ..< start + S} \<union> {start + S - ov ..< n}"
      by (simp add: v)
    also have "\<dots> = {start ..< n}" using v Cons.prems by auto
    finally show ?thesis .
  qed
qed

lemma chain_overlap:
  "chain S ov n start ws \<Longrightarrow> 0 \<le> ov \<Longrightarrow> ov < S \<Longrightarrow> 0 \<le> start \<Longrightarrow>
     successively (\<lambda>v w. overlap v w = nat ov) ws"
proof (induction ws arbitrary: start)
  case Nil
  then show ?case by simp
next
  case (Cons v ws)
  show ?case
  proof (cases ws)
    case Nil
    then show ?thesis by simp
  next
    case (Cons w ws')
    with Cons.prems have v: "v = (start, start + S)" "start + S < n"
      and c: "chain S ov n (max 0 (start + S - ov)) ws"
      by (auto simp: min_def split: if_splits)
    have m: "max 0 (start + S - ov) = start + S - ov" using Cons.prems by simp
    have w: "w = (start + S - ov, min (start + S - ov + S) n)"
      using c unfolding m Cons by simp
    have "{fst v ..< snd v} \<inter> {fst w ..< snd w} = {start + S - ov ..< start + S}"
      using Cons.prems v unfolding w by auto
    then have "overlap v w = nat ov" by (simp add: overlap_def)
    moreover have "successively (\<lambda>v w. overlap v w = nat ov) ws"
      using Cons.IH [OF c [unfolded m]] Cons.prems by simp
    ultimately show ?thesis unfolding Cons by simp
  qed
qed


lemma length_strip: "length (strip s) \<le> length s"
proof -
  have "length (dropWhile isspace (rev (dropWhile isspace s))) \<le> length (rev (dropWhile isspace s))"
    by (rule length_dropWhile_le)
  then have "length (strip s) \<le> length (dropWhile isspace s)"
    by (simp add: strip_def)
  also have "\<dots> \<le> length s" by (rule length_dropWhile_le)
  finally show ?thesis .
qed

lemma dropWhile_id: "xs = [] \<or> \<not> P (hd xs) \<Longrightarrow> dropWhile P xs = xs"
  by (cases xs) auto

lemma strip_ends:
  assumes "strip s \<noteq> []"
  shows "\<not> isspace (hd (strip s))" and "\<not> isspace (last (strip s))"
proof -
  let ?t = "dropWhile isspace s"
  let ?u = "dropWhile isspace (rev ?t)"
  have u: "?u \<noteq> []" using assms by (simp add: strip_def)
  then have "\<not> isspace (hd ?u)" by (rule hd_dropWhile)
  then show "\<not> isspace (last (strip s))" using u by (simp add: strip_def last_rev)
  have t: "?t \<noteq> []"
  proof
    assume "?t = []"
    then have "?u = []" by (simp only: rev.simps dropWhile.simps)
    with u show False by blast
  qed
  then have nt: "\<not> isspace (hd ?t)" by (rule hd_dropWhile)
  obtain ys where "rev ?t = ys @ ?u"
    by (metis takeWhile_dropWhile_id)
  then have "?t = rev ?u @ rev ys" by (metis rev_append rev_rev_ident)
  then have "hd ?t = hd (rev ?u)" using u by (metis hd_append2 rev_is_Nil_conv)
  then show "\<not> isspace (hd (strip s))" using nt by (simp add: strip_def)
qed

lemma strip_strip: "strip (strip s) = strip s"
proof (cases "strip s = []")
  case True
  have "strip [] = []" by (simp add: strip_def)
  then show ?thesis by (simp only: True)
next
  case False
  let ?u = "strip s"
  have 1: "dropWhile isspace ?u = ?u"
    using strip_ends(1) [OF False] by (intro dropWhile_id) simp
  have "\<not> isspace (hd (rev ?u))" using strip_ends(2) [OF False] False by (simp add: hd_rev)
  then have 2: "dropWhile isspace (rev ?u) = rev ?u" by (intro dropWhile_id) simp
  show ?thesis by (subst (1) strip_def) (simp only: 1 2 rev_rev_ident)
qed

lemma length_py_slice:
  "0 \<le> i \<Longrightarrow> i \<le> j \<Longrightarrow> int (length (py_slice xs i j)) \<le> j - i"
  by (auto simp: py_slice_def slice_bound_def Let_def min_def)

lemma py_slice_inside:
  "0 \<le> i \<Longrightarrow> i \<le> j \<Longrightarrow> j \<le> int (length xs) \<Longrightarrow>
     py_slice xs i j = take (nat (j - i)) (drop (nat i) xs)"
  by (auto simp: py_slice_def slice_bound_def Let_def min_def)

lemma surviving_props:
  assumes "chain S ov (int (length text)) start ws" "0 \<le> S" "0 \<le> start"
    and "c \<in> set (surviving text ws)"
  shows "c \<noteq> [] \<and> strip c = c \<and> int (length c) \<le> S"
proof -
  from assms(4) obtain w where w: "w \<in> set ws" "c = window_chunk text w" "c \<noteq> []"
    by (auto simp: surviving_def)
  from chain_bounds [OF assms(1-3) w(1)]
  have b: "0 \<le> fst w" "fst w \<le> snd w" "snd w - fst w \<le> S" by auto
  have "int (length c) \<le> int (length (py_slice text (fst w) (snd w)))"
    unfolding w(2) window_chunk_def using length_strip by simp
  also have "\<dots> \<le> snd w - fst w" using b by (intro length_py_slice)
  finally have "int (length c) \<le> S" using b by simp
  moreover have "strip c = c" unfolding w(2) window_chunk_def by (rule strip_strip)
  ultimately show ?thesis using w(3) by simp
qed


lemma chain_last:
  "chain S ov n start ws \<Longrightarrow> 0 \<le> ov \<Longrightarrow> ov < S \<Longrightarrow> 0 \<le> start \<Longrightarrow> start < n \<Longrightarrow>
     ws \<noteq> [] \<and> snd (last ws) = n"
proof (induction ws arbitrary: start)
  case Nil
  then show ?case by simp
next
  case (Cons v ws)
  show ?case
  proof (cases "snd v = n")
    case True
    with Cons.prems show ?thesis by auto
  next
    case False
    with Cons.prems have v: "v = (start, start + S)" "start + S < n"
      and c: "chain S ov n (max 0 (start + S - ov)) ws"
      by (auto simp: min_def split: if_splits)
    have m: "max 0 (start + S - ov) = start + S - ov" using Cons.prems by simp
    have "ws \<noteq> [] \<and> snd (last ws) = n"
      using Cons.IH [OF c [unfolded m]] Cons.prems v by simp
    then show ?thesis by simp
  qed
qed

lemma chunk_text_with_run:
  assumes "ov < S"
  obtains ws where "chain S ov (int (length text)) 0 ws"
    and "chunk_windows S ov text = Some ws"
    and "chunk_text_with S ov text = Some (surviving text ws)"
proof -
  from loops_run [OF assms, of "text" 0] obtain ws where
    "chain S ov (int (length text)) 0 ws"
    "\<And>acc. window_loop S ov (int (length text)) 0 acc = Some (acc @ ws)"
    "\<And>chunks. chunk_loop S ov text 0 chunks = Some (chunks @ surviving text ws)"
    by blast
  then have "chain S ov (int (length text)) 0 ws" "chunk_windows S ov text = Some ws"
    "chunk_text_with S ov text = Some (surviving text ws)"
    by (simp_all add: chunk_windows_def chunk_text_with_def)
  then show thesis by (rule that)
qed

lemma chunk_text_total: "\<exists>chunks. chunk_text text = Some chunks"
proof -
  have "CHUNK_OVERLAP < CHUNK_SIZE" by (simp add: CHUNK_OVERLAP_def CHUNK_SIZE_def)
  then obtain ws where "chunk_text_with CHUNK_SIZE CHUNK_OVERLAP text = Some (surviving text ws)"
    by (rule chunk_text_with_run)
  then show ?thesis by (simp add: chunk_text_def)
qed

lemma chunk_loop_done: "\<not> start < int (length text) \<Longrightarrow> chunk_loop S ov text start chunks = Some chunks"
  by (subst chunk_loop.simps) simp

lemma chunk_loop_last:
  "start < int (length text) \<Longrightarrow> int (length text) \<le> start + S \<Longrightarrow>
   chunk_loop S ov text start chunks =
     Some (if window_chunk text (start, int (length text)) \<noteq> []
           then chunks @ [window_chunk text (start, int (length text))] else chunks)"
  by (subst chunk_loop.simps) (simp add: Let_def window_chunk_def min_def)

lemma chunk_loop_next:
  "start < int (length text) \<Longrightarrow> start + S < int (length text) \<Longrightarrow>
   chunk_loop S ov text start chunks =
     chunk_loop S ov text (max 0 (start + S - ov))
       (if window_chunk text (start, start + S) \<noteq> []
        then chunks @ [window_chunk text (start, start + S)] else chunks)"
  by (subst chunk_loop.simps) (simp add: Let_def window_chunk_def min_def max_def)

lemma window_loop_done: "\<not> start < n \<Longrightarrow> window_loop S ov n start ws = Some ws"
  by (subst window_loop.simps) simp

lemma window_loop_last:
  "start < n \<Longrightarrow> n \<le> start + S \<Longrightarrow> window_loop S ov n start ws = Some (ws @ [(start, n)])"
  by (subst window_loop.simps) (simp add: Let_def min_def)

lemma window_loop_next:
  "start < n \<Longrightarrow> start + S < n \<Longrightarrow>
   window_loop S ov n start ws = window_loop S ov n (max 0 (start + S - ov)) (ws @ [(start, start + S)])"
  by (subst window_loop.simps) (simp add: Let_def min_def max_def)

lemma example_length: "length (str ''AAAAABBBBBCCCCC'') = 15"
  by (simp add: str_def)

lemma example_chunks:
  "chunk_text_with 10 3 (str ''AAAAABBBBBCCCCC'')
     = Some [str ''AAAAABBBBB'', str ''BBBCCCCC'']"
  by (simp add: chunk_text_with_def str_def chunk_loop_next chunk_loop_last
      window_chunk_def py_slice_def slice_bound_def strip_def isspace_def)

lemma example_windows:
  "chunk_windows 10 3 (str ''AAAAABBBBBCCCCC'') = Some [(0, 10), (7, 15)]"
  by (simp add: chunk_windows_def example_length window_loop_next window_loop_last)

lemma str_inject: "str s = str t \<longleftrightarrow> s = t"
  by (simp add: str_def inj_map_eq_map inj_of_char)

text \<open>
  Claim C1. For a text of length \<open>n\<close> and a configuration with \<open>0 \<le> ov < S\<close>, the loop
  returns, the windows it went through (before trimming) lie inside the text, their
  union is exactly the positions \<open>0 ..< n\<close>, so nothing is left uncovered, and every
  two adjacent windows share exactly \<open>ov\<close> positions. The last pair is no exception.
  The chunks returned are the trimmed, non-empty slices of these windows, in order.
\<close>

theorem chunk_windows_cover:
  assumes "0 \<le> ov" and "ov < S"
  shows "\<exists>ws. chunk_windows S ov text = Some ws \<and>
              chunk_text_with S ov text = Some (surviving text ws) \<and>
              (\<forall>w\<in>set ws. 0 \<le> fst w \<and> fst w \<le> snd w \<and> snd w \<le> int (length text)) \<and>
              (\<Union>w\<in>set ws. {fst w ..< snd w}) = {0 ..< int (length text)} \<and>
              (\<forall>i. Suc i < length ws \<longrightarrow> overlap (ws ! i) (ws ! Suc i) = nat ov)"
proof -
  from assms(2) obtain ws where c: "chain S ov (int (length text)) 0 ws"
    and w: "chunk_windows S ov text = Some ws"
    and k: "chunk_text_with S ov text = Some (surviving text ws)"
    by (rule chunk_text_with_run)
  have S: "0 \<le> S" using assms by simp
  have "\<forall>w\<in>set ws. 0 \<le> fst w \<and> fst w \<le> snd w \<and> snd w \<le> int (length text)"
    using chain_bounds [OF c S] by blast
  moreover have "(\<Union>w\<in>set ws. {fst w ..< snd w}) = {0 ..< int (length text)}"
    using chain_cover [OF c assms] by simp
  moreover have "\<forall>i. Suc i < length ws \<longrightarrow> overlap (ws ! i) (ws ! Suc i) = nat ov"
    using successively_nth [OF chain_overlap [OF c assms]] by simp
  ultimately show ?thesis using w k by blast
qed

text \<open>The statement of C1 at \<open>S = 10\<close>, \<open>ov = 3\<close> and a text of 15 characters.\<close>

theorem chunk_windows_cover_witness:
  "(0::int) \<le> 3 \<and> (3::int) < 10 \<and>
   chunk_windows 10 3 (str ''AAAAABBBBBCCCCC'') = Some [(0, 10), (7, 15)] \<and>
   chunk_text_with 10 3 (str ''AAAAABBBBBCCCCC'')
     = Some (surviving (str ''AAAAABBBBBCCCCC'') [(0, 10), (7, 15)]) \<and>
   {0 ..< 10} \<union> {7 ..< 15} = {0 ..< (15::int)} \<and>
   overlap (0, 10) (7, 15) = 3"
proof -
  from chunk_windows_cover [of 3 10 "str ''AAAAABBBBBCCCCC''"] obtain ws where
    w: "chunk_windows 10 3 (str ''AAAAABBBBBCCCCC'') = Some ws"
    and k: "chunk_text_with 10 3 (str ''AAAAABBBBBCCCCC'')
              = Some (surviving (str ''AAAAABBBBBCCCCC'') ws)"
    and u: "(\<Union>w\<in>set ws. {fst w ..< snd w}) = {0 ..< int (length (str ''AAAAABBBBBCCCCC''))}"
    and o: "\<And>i. Suc i < length ws \<Longrightarrow> overlap (ws ! i) (ws ! Suc i) = nat 3"
    by auto
  from w have ws: "ws = [(0, 10), (7, 15)]" by (simp add: example_windows)
  have "{0 ..< 10} \<union> {7 ..< 15} = {0 ..< (15::int)}"
    using u unfolding ws example_length by simp
  moreover have "overlap (0, 10) (7, 15) = 3" using o [of 0] unfolding ws by simp
  ultimately show ?thesis using w k unfolding ws by simp
qed

text \<open>
  Claim C2, as the specification states it, does not hold: with \<open>S = 10\<close> and
  \<open>ov = 3\<close> the document \<open>AAAAABBBBBCCCCC\<close> is not chunked into \<open>AAAAABBBBB\<close> and
  \<open>BBCCCCC\<close>.
\<close>

theorem chunk_text_example_refuted:
  "chunk_text_with 10 3 (str ''AAAAABBBBBCCCCC'')
     \<noteq> Some [str ''AAAAABBBBB'', str ''BBCCCCC'']"
  by (simp add: example_chunks str_inject)

text \<open>
  Claim C2, amended: the second window starts at \<open>10 - 3 = 7\<close> and holds the three
  characters shared with the first, so the chunks are \<open>AAAAABBBBB\<close> and \<open>BBBCCCCC\<close>.
\<close>

theorem chunk_text_example:
  "chunk_text_with 10 3 (str ''AAAAABBBBBCCCCC'')
     = Some [str ''AAAAABBBBB'', str ''BBBCCCCC'']"
  by (rule example_chunks)

text \<open>
  Claim C8. With the overlap below a non-negative chunk size, the chunker returns, and
  every chunk it returns is non-empty, is already trimmed (so it stays non-empty under
  trimming), and has at most \<open>S\<close> characters. The empty text gives the empty list of
  chunks, for any configuration.
\<close>

theorem chunk_text_chunks_bounded:
  "(ov < S \<longrightarrow> 0 \<le> S \<longrightarrow>
      (\<exists>chunks. chunk_text_with S ov text = Some chunks \<and>
                (\<forall>c\<in>set chunks. c \<noteq> [] \<and> strip c = c \<and> int (length c) \<le> S))) \<and>
   chunk_text_with S ov [] = Some []"
proof (intro conjI impI)
  assume lt: "ov < S" and S: "0 \<le> S"
  from lt obtain ws where c: "chain S ov (int (length text)) 0 ws"
    and k: "chunk_text_with S ov text = Some (surviving text ws)"
    by (rule chunk_text_with_run)
  have "\<forall>c\<in>set (surviving text ws). c \<noteq> [] \<and> strip c = c \<and> int (length c) \<le> S"
    using surviving_props [OF c S] by blast
  with k show "\<exists>chunks. chunk_text_with S ov text = Some chunks \<and>
                (\<forall>c\<in>set chunks. c \<noteq> [] \<and> strip c = c \<and> int (length c) \<le> S)"
    by blast
next
  show "chunk_text_with S ov [] = Some []"
    unfolding chunk_text_with_def by (subst chunk_loop.simps) simp
qed

text \<open>The statement of C8 at \<open>S = 10\<close>, \<open>ov = 3\<close> and a text of 15 characters.\<close>

theorem chunk_text_chunks_bounded_witness:
  "((3::int) < 10 \<and> (0::int) \<le> 10) \<and>
   chunk_text_with 10 3 (str ''AAAAABBBBBCCCCC'') = Some [str ''AAAAABBBBB'', str ''BBBCCCCC''] \<and>
   str ''AAAAABBBBB'' \<noteq> [] \<and> strip (str ''AAAAABBBBB'') = str ''AAAAABBBBB'' \<and>
   int (length (str ''AAAAABBBBB'')) \<le> 10 \<and>
   str ''BBBCCCCC'' \<noteq> [] \<and> strip (str ''BBBCCCCC'') = str ''BBBCCCCC'' \<and>
   int (length (str ''BBBCCCCC'')) \<le> 10 \<and>
   chunk_text_with 10 3 [] = Some []"
  using chunk_text_chunks_bounded [of 3 10 "str ''AAAAABBBBBCCCCC''"]
  unfolding example_chunks by simp

text \<open>
  Claim C9. With the overlap strictly below the chunk size the chunking loop
  terminates on every text, and it ends at the first window whose end is the length of
  the text: such a window is always the last one, whatever its width. When moreover the
  overlap is not negative and the text is not empty, the last window does end at the
  length of the text.
\<close>

theorem chunk_text_terminates:
  assumes "ov < S"
  shows "(\<exists>chunks. chunk_text_with S ov text = Some chunks) \<and>
         (\<exists>ws. chunk_windows S ov text = Some ws \<and>
               (\<forall>i<length ws. snd (ws ! i) = int (length text) \<longrightarrow> Suc i = length ws) \<and>
               (0 \<le> ov \<longrightarrow> text \<noteq> [] \<longrightarrow> ws \<noteq> [] \<and> snd (last ws) = int (length text)))"
proof -
  from assms obtain ws where c: "chain S ov (int (length text)) 0 ws"
    and w: "chunk_windows S ov text = Some ws"
    and k: "chunk_text_with S ov text = Some (surviving text ws)"
    by (rule chunk_text_with_run)
  have "\<forall>i<length ws. snd (ws ! i) = int (length text) \<longrightarrow> Suc i = length ws"
    using chain_break_last [OF c] by blast
  moreover have "0 \<le> ov \<longrightarrow> text \<noteq> [] \<longrightarrow> ws \<noteq> [] \<and> snd (last ws) = int (length text)"
    using chain_last [OF c _ assms] by simp
  ultimately show ?thesis using w k by blast
qed

text \<open>The statement of C9 at \<open>S = 10\<close>, \<open>ov = 3\<close> and a text of 15 characters.\<close>

theorem chunk_text_terminates_witness:
  "(3::int) < 10 \<and>
   chunk_text_with 10 3 (str ''AAAAABBBBBCCCCC'') \<noteq> None \<and>
   chunk_windows 10 3 (str ''AAAAABBBBBCCCCC'') = Some [(0, 10), (7, 15)]"
  using chunk_text_terminates [of 3 10 "str ''AAAAABBBBBCCCCC''"]
  by (auto simp: example_windows)

text \<open>
  The precondition of C9 is needed: when the overlap equals the chunk size and the text
  is longer than one chunk, the loop stays at \<open>start = 0\<close> and never returns.
\<close>

lemma chunk_loop_equal_overlap_diverges:
  assumes "0 < S" and "S < int (length text)"
  shows "chunk_loop S S text 0 chunks = None"
proof (rule ccontr)
  assume "chunk_loop S S text 0 chunks \<noteq> None"
  then obtain y where y: "chunk_loop S S text 0 chunks = Some y" by blast
  have "\<not> (S = S \<and> S = S \<and> text = text \<and> (0::int) = 0)"
  proof (rule chunk_loop.raw_induct
      [where P = "\<lambda>S' ov text' start chunks y. \<not> (S' = S \<and> ov = S \<and> text' = text \<and> start = 0)",
        OF _ y])
    fix loop :: "int \<Rightarrow> int \<Rightarrow> pystr \<Rightarrow> int \<Rightarrow> pystr list \<Rightarrow> pystr list option"
    fix S' ov text' start chunks' y'
    assume ih: "\<And>S' ov text' start chunks' y'. loop S' ov text' start chunks' = Some y' \<Longrightarrow>
                  \<not> (S' = S \<and> ov = S \<and> text' = text \<and> start = 0)"
    assume body: "(let n = int (length text') in
      if start < n then
        (let end = min (start + S') n;
             chunk = strip (py_slice text' start end);
             chunks1 = (if chunk \<noteq> [] then chunks' @ [chunk] else chunks');
             start1 = end - ov;
             start2 = (if start1 < 0 then 0 else start1)
         in if end = n then Some chunks1
            else loop S' ov text' start2 chunks1)
      else Some chunks') = Some y'"
    show "\<not> (S' = S \<and> ov = S \<and> text' = text \<and> start = 0)"
    proof
      assume a: "S' = S \<and> ov = S \<and> text' = text \<and> start = 0"
      have "\<exists>cs. loop S S text 0 cs = Some y'"
        using body a assms by (auto simp: Let_def min_def split: if_splits)
      then show False using ih by blast
    qed
  qed
  then show False by simp
qed

lemma example_diverges: "chunk_text_with 10 10 (str ''AAAAABBBBBCCCCC'') = None"
  unfolding chunk_text_with_def
  by (rule chunk_loop_equal_overlap_diverges) (simp_all add: str_def)

section \<open>Properties of retrieval\<close>

lemma v1_loop_result:
  "v1_retrieve_loop i docs metas ids cs bs = Inr (cs', bs') \<Longrightarrow>
     \<exists>cs2 bs2. cs' = cs @ cs2 \<and> bs' = bs @ bs2 \<and>
       length cs2 = length docs \<and> length bs2 = length docs \<and>
       (\<forall>j<length docs.
          cit_id (cs2 ! j) = item_or ids (i + j) (str ''chunk_'' @ str_int (int (i + j))) \<and>
          (\<exists>m. item_or metas (i + j) (Some Map.empty) = Some m \<and>
               cit_source_file (cs2 ! j) = dict_get m (str ''source_file'') (MStr (str ''unknown'')) \<and>
               cit_chunk_index (cs2 ! j) = dict_get m (str ''chunk_index'') (MInt (int (i + j)))) \<and>
          bs2 ! j = context_block (i + j) (cit_source_file (cs2 ! j))
                      (cit_chunk_index (cs2 ! j)) (docs ! j))"
proof (induction docs arbitrary: i cs bs)
  case Nil
  then show ?case by simp
next
  case (Cons doc docs)
  let ?meta = "item_or metas i (Some Map.empty)"
  let ?cid = "item_or ids i (str ''chunk_'' @ str_int (int i))"
  from Cons.prems obtain m where m: "?meta = Some m"
    by (cases ?meta) (simp_all add: Let_def)
  let ?sf = "dict_get m (str ''source_file'') (MStr (str ''unknown''))"
  let ?ci = "dict_get m (str ''chunk_index'') (MInt (int i))"
  let ?c = "\<lparr>cit_id = ?cid, cit_source_file = ?sf, cit_chunk_index = ?ci\<rparr>"
  let ?b = "context_block i ?sf ?ci doc"
  have "v1_retrieve_loop (Suc i) docs metas ids (cs @ [?c]) (bs @ [?b]) = Inr (cs', bs')"
    using Cons.prems m by (simp add: Let_def)
  from Cons.IH [OF this] obtain cs2 bs2 where
    r: "cs' = (cs @ [?c]) @ cs2" "bs' = (bs @ [?b]) @ bs2"
       "length cs2 = length docs" "length bs2 = length docs"
    and p: "\<And>j. j < length docs \<Longrightarrow>
          cit_id (cs2 ! j) = item_or ids (Suc i + j) (str ''chunk_'' @ str_int (int (Suc i + j))) \<and>
          (\<exists>m. item_or metas (Suc i + j) (Some Map.empty) = Some m \<and>
               cit_source_file (cs2 ! j) = dict_get m (str ''source_file'') (MStr (str ''unknown'')) \<and>
               cit_chunk_index (cs2 ! j) = dict_get m (str ''chunk_index'') (MInt (int (Suc i + j)))) \<and>
          bs2 ! j = context_block (Suc i + j) (cit_source_file (cs2 ! j))
                      (cit_chunk_index (cs2 ! j)) (docs ! j)"
    by blast
  have "\<forall>j<length (doc # docs).
          cit_id ((?c # cs2) ! j) = item_or ids (i + j) (str ''chunk_'' @ str_int (int (i + j))) \<and>
          (\<exists>m. item_or metas (i + j) (Some Map.empty) = Some m \<and>
               cit_source_file ((?c # cs2) ! j) = dict_get m (str ''source_file'') (MStr (str ''unknown'')) \<and>
               cit_chunk_index ((?c # cs2) ! j) = dict_get m (str ''chunk_index'') (MInt (int (i + j)))) \<and>
          (?b # bs2) ! j = context_block (i + j) (cit_source_file ((?c # cs2) ! j))
                      (cit_chunk_index ((?c # cs2) ! j)) ((doc # docs) ! j)"
  proof (intro allI impI)
    fix j assume j: "j < length (doc # docs)"
    show "cit_id ((?c # cs2) ! j) = item_or ids (i + j) (str ''chunk_'' @ str_int (int (i + j))) \<and>
          (\<exists>m. item_or metas (i + j) (Some Map.empty) = Some m \<and>
               cit_source_file ((?c # cs2) ! j) = dict_get m (str ''source_file'') (MStr (str ''unknown'')) \<and>
               cit_chunk_index ((?c # cs2) ! j) = dict_get m (str ''chunk_index'') (MInt (int (i + j)))) \<and>
          (?b # bs2) ! j = context_block (i + j) (cit_source_file ((?c # cs2) ! j))
                      (cit_chunk_index ((?c # cs2) ! j)) ((doc # docs) ! j)"
    proof (cases j)
      case 0
      then show ?thesis using m by simp
    next
      case (Suc k)
      then have "k < length docs" using j by simp
      from p [OF this] show ?thesis unfolding Suc by simp
    qed
  qed
  moreover have "cs' = cs @ (?c # cs2)" "bs' = bs @ (?b # bs2)"
    "length (?c # cs2) = length (doc # docs)" "length (?b # bs2) = length (doc # docs)"
    using r by simp_all
  ultimately show ?case by blast
qed

lemma v1_loop_total:
  "(\<forall>j<length docs. i + j < length metas \<longrightarrow> metas ! (i + j) \<noteq> None) \<Longrightarrow>
     \<exists>r. v1_retrieve_loop i docs metas ids cs bs = Inr r"
proof (induction docs arbitrary: i cs bs)
  case Nil
  then show ?case by simp
next
  case (Cons doc docs)
  let ?meta = "item_or metas i (Some Map.empty)"
  have "?meta \<noteq> None" using Cons.prems [rule_format, of 0] by (simp add: item_or_def)
  then obtain m where m: "?meta = Some m" by blast
  have "\<forall>j<length docs. Suc i + j < length metas \<longrightarrow> metas ! (Suc i + j) \<noteq> None"
    using Cons.prems by fastforce
  from Cons.IH [OF this] show ?case using m by (simp add: Let_def)
qed

lemma v1_loop_none:
  "i < length metas \<Longrightarrow> metas ! i = None \<Longrightarrow>
     v1_retrieve_loop i (doc # docs) metas ids cs bs = Inl AttributeError"
  by (simp add: item_or_def)

lemma v1_v2_loop:
  "v1_retrieve_loop i docs metas ids cs bs = v2_retrieve_loop i docs metas ids cs bs"
  by (induction docs arbitrary: i cs bs) (simp_all add: Let_def split: option.split)

text \<open>
  Claim C10. The two chat front-ends retrieve alike: for every embedder, every store,
  every query and every \<open>top_k\<close>, \<open>retrieve_context\<close> of geminitestv1.py and
  \<open>retrieve_context\<close> of geminitestv2.py give the same outcome, the same pair of
  context text and citations or the same exception.
\<close>

theorem retrieve_context_v1_v2_equal:
  "v1_retrieve_context encode query_collection query top_k
     = v2_retrieve_context encode query_collection query top_k"
  by (simp add: v1_retrieve_context_def v2_retrieve_context_def v1_v2_loop)

lemma strip_Nil: "strip [] = []"
  by (simp add: strip_def)

text \<open>
  Claim C6. Let the embedder and the store answer and let the store return at most
  \<open>top_k\<close> documents (its contract: the code does not cut the list itself). Whenever
  retrieval returns, there is one citation per returned document, so at most \<open>top_k\<close>
  of them, in the order of the store: citation \<open>j\<close> carries the id at position \<open>j\<close>.
  The context text is the trimmed join of one block per citation in that order, block
  \<open>j\<close> being built from citation \<open>j\<close> and document \<open>j\<close> and starting with the marker
  \<open>[j+1]\<close>. With no document returned, the context text is empty and there is no
  citation. And retrieval does return when no metadata entry of a returned record is
  \<open>None\<close>.
\<close>

theorem retrieve_context_ordered:
  assumes enc: "encode [query] = Inr (q_emb # embs)"
    and qry: "query_collection [q_emb] top_k = Inr results"
    and d: "first_batch (qr_documents results) = Inr docs"
    and m: "first_batch (qr_metadatas results) = Inr metas"
    and i: "first_batch (qr_ids results) = Inr ids"
    and bound: "int (length docs) \<le> top_k"
  shows "((\<forall>j<length docs. j < length metas \<longrightarrow> metas ! j \<noteq> None) \<longrightarrow>
            (\<exists>r. v1_retrieve_context encode query_collection query top_k = Inr r)) \<and>
         (\<forall>context_text citations.
            v1_retrieve_context encode query_collection query top_k
              = Inr (context_text, citations) \<longrightarrow>
            int (length citations) \<le> top_k \<and> length citations = length docs \<and>
            (\<exists>blocks. length blocks = length citations \<and>
               context_text = strip (join block_separator blocks) \<and>
               (\<forall>j<length citations.
                  cit_id (citations ! j) = item_or ids j (str ''chunk_'' @ str_int (int j)) \<and>
                  blocks ! j = context_block j (cit_source_file (citations ! j))
                                 (cit_chunk_index (citations ! j)) (docs ! j) \<and>
                  (\<exists>rest. blocks ! j = str ''['' @ str_int (int j + 1) @ str '']'' @ rest))) \<and>
            (docs = [] \<longrightarrow> context_text = [] \<and> citations = []))"
proof (intro conjI allI impI)
  assume "\<forall>j<length docs. j < length metas \<longrightarrow> metas ! j \<noteq> None"
  then have "\<forall>j<length docs. 0 + j < length metas \<longrightarrow> metas ! (0 + j) \<noteq> None" by simp
  from v1_loop_total [OF this] obtain r where
    "v1_retrieve_loop 0 docs metas ids [] [] = Inr r" by blast
  then show "\<exists>r. v1_retrieve_context encode query_collection query top_k = Inr r"
    by (cases r) (simp add: v1_retrieve_context_def and_then_def enc qry d m i)
next
  fix context_text citations
  assume r: "v1_retrieve_context encode query_collection query top_k
               = Inr (context_text, citations)"
  then obtain bs where l: "v1_retrieve_loop 0 docs metas ids [] [] = Inr (citations, bs)"
    and c: "context_text = strip (join block_separator bs)"
    by (auto simp: v1_retrieve_context_def and_then_def enc qry d m i split: sum.splits)
  from v1_loop_result [OF l] have
    len: "length citations = length docs" "length bs = length docs"
    and p: "\<And>j. j < length docs \<Longrightarrow>
          cit_id (citations ! j) = item_or ids j (str ''chunk_'' @ str_int (int j)) \<and>
          bs ! j = context_block j (cit_source_file (citations ! j))
                     (cit_chunk_index (citations ! j)) (docs ! j)"
    by auto
  have pre: "\<And>j. j < length docs \<Longrightarrow>
          \<exists>rest. bs ! j = str ''['' @ str_int (int j + 1) @ str '']'' @ rest"
    using p by (simp add: context_block_def str_def)
  show "int (length citations) \<le> top_k" using len bound by simp
  show "length citations = length docs" by (rule len)
  show "\<exists>blocks. length blocks = length citations \<and>
               context_text = strip (join block_separator blocks) \<and>
               (\<forall>j<length citations.
                  cit_id (citations ! j) = item_or ids j (str ''chunk_'' @ str_int (int j)) \<and>
                  blocks ! j = context_block j (cit_source_file (citations ! j))
                                 (cit_chunk_index (citations ! j)) (docs ! j) \<and>
                  (\<exists>rest. blocks ! j = str ''['' @ str_int (int j + 1) @ str '']'' @ rest))"
    using len c p pre by (intro exI [of _ bs]) simp
  show "context_text = []" if "docs = []"
    using that len c by (simp add: strip_Nil)
  show "citations = []" if "docs = []"
    using that len by simp
qed

lemma digits_small: "n < 10 \<Longrightarrow> digits n = [48 + n]"
  by (subst digits.simps) simp

lemma demo_run:
  "v1_retrieve_context demo_encode (demo_collection demo_results) (str ''fees'') 4 =
     Inr (str ''[1] (source: a.md, chunk: 0)'' @ [10] @ str ''alpha'' @ [10, 10] @ str ''---'' @
          [10, 10] @ str ''[2] (source: unknown, chunk: 1)'' @ [10] @ str ''beta'',
          [\<lparr>cit_id = str ''a.md::0123456789abcdef::0'', cit_source_file = MStr (str ''a.md''),
            cit_chunk_index = MInt 0\<rparr>,
           \<lparr>cit_id = str ''b.txt::fedcba9876543210::3'', cit_source_file = MStr (str ''unknown''),
            cit_chunk_index = MInt 1\<rparr>])"
  by (simp add: v1_retrieve_context_def and_then_def demo_encode_def demo_collection_def
      demo_results_def first_batch_def item_or_def dict_get_def context_block_def
      block_separator_def str_int_def format_doc_def strip_def isspace_def str_def
      digits_small)

text \<open>The statement of C6 on the sample result of two records, with \<open>top_k = 4\<close>.\<close>

theorem retrieve_context_ordered_witness:
  "demo_encode [str ''fees''] = Inr (4 # []) \<and>
   demo_collection demo_results [4] 4 = Inr demo_results \<and>
   first_batch (qr_documents demo_results) = Inr [Some (str ''alpha''), Some (str ''beta'')] \<and>
   (\<exists>context_text citations blocks.
      v1_retrieve_context demo_encode (demo_collection demo_results) (str ''fees'') 4
        = Inr (context_text, citations) \<and>
      int (length citations) \<le> 4 \<and> length citations = 2 \<and> length blocks = length citations \<and>
      context_text = strip (join block_separator blocks) \<and>
      cit_id (citations ! 0) = str ''a.md::0123456789abcdef::0'' \<and>
      cit_id (citations ! 1) = str ''b.txt::fedcba9876543210::3'' \<and>
      blocks ! 1 = context_block 1 (cit_source_file (citations ! 1))
                     (cit_chunk_index (citations ! 1)) (Some (str ''beta'')))"
proof -
  let ?docs = "[Some (str ''alpha''), Some (str ''beta'')]"
  let ?metas = "[Some [str ''source_file'' \<mapsto> MStr (str ''a.md''), str ''chunk_index'' \<mapsto> MInt 0],
                 Some Map.empty]"
  let ?ids = "[str ''a.md::0123456789abcdef::0'', str ''b.txt::fedcba9876543210::3'']"
  have 1: "demo_encode [str ''fees''] = Inr (4 # [])"
    by (simp add: demo_encode_def str_def)
  have 2: "demo_collection demo_results [4] 4 = Inr demo_results"
    by (simp add: demo_collection_def)
  have 3: "first_batch (qr_documents demo_results) = Inr ?docs"
    by (simp add: first_batch_def demo_results_def)
  have 4: "first_batch (qr_metadatas demo_results) = Inr ?metas"
    by (simp add: first_batch_def demo_results_def)
  have 5: "first_batch (qr_ids demo_results) = Inr ?ids"
    by (simp add: first_batch_def demo_results_def)
  have 6: "int (length ?docs) \<le> 4" by simp
  have 7: "\<forall>j<length ?docs. j < length ?metas \<longrightarrow> ?metas ! j \<noteq> None"
    by (simp add: less_Suc_eq)
  note t = retrieve_context_ordered
         [where encode = demo_encode and query_collection = "demo_collection demo_results"
            and query = "str ''fees''", OF 1 2 3 4 5 6]
  from t 7 obtain context_text citations where
    r: "v1_retrieve_context demo_encode (demo_collection demo_results) (str ''fees'') 4
          = Inr (context_text, citations)"
    by fastforce
  from t r obtain blocks where
    q: "int (length citations) \<le> 4" "length citations = 2" "length blocks = length citations"
       "context_text = strip (join block_separator blocks)"
    and p: "\<And>j. j < length citations \<Longrightarrow>
              cit_id (citations ! j) = item_or ?ids j (str ''chunk_'' @ str_int (int j)) \<and>
              blocks ! j = context_block j (cit_source_file (citations ! j))
                             (cit_chunk_index (citations ! j)) (?docs ! j)"
    by auto
  have "cit_id (citations ! 0) = str ''a.md::0123456789abcdef::0''"
    using p [of 0] q(2) by (simp add: item_or_def)
  moreover have "cit_id (citations ! 1) = str ''b.txt::fedcba9876543210::3''"
    using p [of 1] q(2) by (simp add: item_or_def)
  moreover have "blocks ! 1 = context_block 1 (cit_source_file (citations ! 1))
                     (cit_chunk_index (citations ! 1)) (Some (str ''beta''))"
    using p [of 1] q(2) by simp
  ultimately show ?thesis using 1 2 3 r q by blast
qed

lemma empty_run:
  "v1_retrieve_context demo_encode (demo_collection empty_results) (str ''fees'') 4 = Inr ([], [])"
  by (simp add: v1_retrieve_context_def and_then_def demo_encode_def demo_collection_def
      empty_results_def first_batch_def strip_def str_def)

text \<open>
  The cases of missing metadata that the loop covers. Let the embedder and the store
  answer and let no metadata entry of a returned record be \<open>None\<close>. Then retrieval
  returns, and for every result the dictionary that is used (the stored one, or the empty
  one when the metadata list is too short) decides the citation: without the key
  \<open>source_file\<close> the citation says \<open>unknown\<close>, without the key \<open>chunk_index\<close> it carries
  the index \<open>j\<close> of the result, counted from 0, which is one less than the rank marker
  \<open>[j+1]\<close> of its block.
\<close>

lemma retrieve_context_metadata_defaults:
  assumes enc: "encode [query] = Inr (q_emb # embs)"
    and qry: "query_collection [q_emb] top_k = Inr results"
    and d: "first_batch (qr_documents results) = Inr docs"
    and m: "first_batch (qr_metadatas results) = Inr metas"
    and i: "first_batch (qr_ids results) = Inr ids"
    and dicts: "\<forall>j<length docs. j < length metas \<longrightarrow> metas ! j \<noteq> None"
  shows "\<exists>context_text citations.
           v1_retrieve_context encode query_collection query top_k
             = Inr (context_text, citations) \<and>
           length citations = length docs \<and>
           (\<forall>j<length docs. \<exists>meta.
              item_or metas j (Some Map.empty) = Some meta \<and>
              (meta (str ''source_file'') = None \<longrightarrow>
                 cit_source_file (citations ! j) = MStr (str ''unknown'')) \<and>
              (meta (str ''chunk_index'') = None \<longrightarrow>
                 cit_chunk_index (citations ! j) = MInt (int j)))"
proof -
  from dicts have "\<forall>j<length docs. 0 + j < length metas \<longrightarrow> metas ! (0 + j) \<noteq> None" by simp
  from v1_loop_total [OF this] obtain cs bs where
    l: "v1_retrieve_loop 0 docs metas ids [] [] = Inr (cs, bs)" by fastforce
  from v1_loop_result [OF l] have len: "length cs = length docs"
    and p: "\<And>j. j < length docs \<Longrightarrow>
          \<exists>meta. item_or metas j (Some Map.empty) = Some meta \<and>
            cit_source_file (cs ! j) = dict_get meta (str ''source_file'') (MStr (str ''unknown'')) \<and>
            cit_chunk_index (cs ! j) = dict_get meta (str ''chunk_index'') (MInt (int j))"
    by auto
  have r: "v1_retrieve_context encode query_collection query top_k
             = Inr (strip (join block_separator bs), cs)"
    by (simp add: v1_retrieve_context_def and_then_def enc qry d m i l)
  have "\<exists>meta. item_or metas j (Some Map.empty) = Some meta \<and>
              (meta (str ''source_file'') = None \<longrightarrow>
                 cit_source_file (cs ! j) = MStr (str ''unknown'')) \<and>
              (meta (str ''chunk_index'') = None \<longrightarrow>
                 cit_chunk_index (cs ! j) = MInt (int j))" if "j < length docs" for j
    using p [OF that] by (auto simp: dict_get_def)
  then show ?thesis using r len by blast
qed

text \<open>
  Claim C7. Retrieval does fail on missing metadata, in both front-ends: for a record
  stored without metadata the store returns the entry \<open>None\<close>, and \<open>meta.get\<close> on it
  raises \<open>AttributeError\<close>. The whole call fails, whether the record is the only result
  or follows one that has its metadata, and no citation is emitted. The loop does cover
  the two neighbouring cases: a metadata list that is too short (the empty dictionary is
  used: \<open>unknown\<close>, index 0) and a dictionary without the keys (second record of the
  sample result: \<open>unknown\<close>, index 1 under the rank marker \<open>[2]\<close>).
\<close>

theorem retrieve_context_none_metadata_raises:
  "v1_retrieve_context demo_encode (demo_collection bare_results) (str ''fees'') 4
     = Inl AttributeError \<and>
   v2_retrieve_context demo_encode (demo_collection bare_results) (str ''fees'') 4
     = Inl AttributeError \<and>
   v1_retrieve_context demo_encode (demo_collection mixed_results) (str ''fees'') 4
     = Inl AttributeError \<and>
   v2_retrieve_context demo_encode (demo_collection mixed_results) (str ''fees'') 4
     = Inl AttributeError \<and>
   v1_retrieve_context demo_encode (demo_collection short_results) (str ''fees'') 4
     = Inr (str ''[1] (source: unknown, chunk: 0)'' @ [10] @ str ''alpha'',
            [\<lparr>cit_id = str ''note-1'', cit_source_file = MStr (str ''unknown''),
              cit_chunk_index = MInt 0\<rparr>]) \<and>
   (\<exists>context_text citations.
      v1_retrieve_context demo_encode (demo_collection demo_results) (str ''fees'') 4
        = Inr (context_text, citations) \<and>
      cit_source_file (citations ! 1) = MStr (str ''unknown'') \<and>
      cit_chunk_index (citations ! 1) = MInt 1)"
proof (intro conjI)
  show "v1_retrieve_context demo_encode (demo_collection bare_results) (str ''fees'') 4
          = Inl AttributeError"
    by (simp add: v1_retrieve_context_def and_then_def demo_encode_def demo_collection_def
        bare_results_def first_batch_def item_or_def str_def)
  show "v2_retrieve_context demo_encode (demo_collection bare_results) (str ''fees'') 4
          = Inl AttributeError"
    by (simp add: v2_retrieve_context_def and_then_def demo_encode_def demo_collection_def
        bare_results_def first_batch_def item_or_def str_def)
  show "v1_retrieve_context demo_encode (demo_collection mixed_results) (str ''fees'') 4
          = Inl AttributeError"
    by (simp add: v1_retrieve_context_def and_then_def demo_encode_def demo_collection_def
        mixed_results_def first_batch_def item_or_def str_def)
  show "v2_retrieve_context demo_encode (demo_collection mixed_results) (str ''fees'') 4
          = Inl AttributeError"
    by (simp add: v2_retrieve_context_def and_then_def demo_encode_def demo_collection_def
        mixed_results_def first_batch_def item_or_def str_def)
  show "v1_retrieve_context demo_encode (demo_collection short_results) (str ''fees'') 4
          = Inr (str ''[1] (source: unknown, chunk: 0)'' @ [10] @ str ''alpha'',
                 [\<lparr>cit_id = str ''note-1'', cit_source_file = MStr (str ''unknown''),
                   cit_chunk_index = MInt 0\<rparr>])"
    by (simp add: v1_retrieve_context_def and_then_def demo_encode_def demo_collection_def
        short_results_def first_batch_def item_or_def dict_get_def context_block_def
        block_separator_def str_int_def format_doc_def strip_def isspace_def str_def
        digits_small)
  show "\<exists>context_text citations.
      v1_retrieve_context demo_encode (demo_collection demo_results) (str ''fees'') 4
        = Inr (context_text, citations) \<and>
      cit_source_file (citations ! 1) = MStr (str ''unknown'') \<and>
      cit_chunk_index (citations ! 1) = MInt 1"
    by (simp add: demo_run)
qed

section \<open>Properties of the index build\<close>

lemma digits_range: "c \<in> set (digits n) \<Longrightarrow> 48 \<le> c \<and> c \<le> 57"
proof (induction n arbitrary: c rule: digits.induct)
  case (1 n)
  show ?case
  proof (cases "n < 10")
    case True
    with "1.prems" show ?thesis by (subst (asm) digits.simps) simp
  next
    case False
    from "1.prems" have "c \<in> set (digits (n div 10)) \<or> c = 48 + n mod 10"
      using False by (subst (asm) digits.simps) auto
    then show ?thesis
    proof
      assume "c \<in> set (digits (n div 10))"
      then show ?thesis using "1.IH" [OF False] by blast
    next
      assume "c = 48 + n mod 10"
      then show ?thesis by simp
    qed
  qed
qed

lemma digits_not_Nil: "digits n \<noteq> []"
  by (subst digits.simps) simp

lemma digits_snoc: "\<exists>ds. digits n = ds @ [48 + n mod 10] \<and> (ds = [] \<longleftrightarrow> n < 10) \<and>
                       (\<not> n < 10 \<longrightarrow> ds = digits (n div 10))"
  by (subst digits.simps) (simp add: digits_not_Nil)

lemma digits_inj: "digits m = digits n \<Longrightarrow> m = n"
proof (induction m arbitrary: n rule: digits.induct)
  case (1 m)
  obtain ds where m: "digits m = ds @ [48 + m mod 10]" "ds = [] \<longleftrightarrow> m < 10"
    "\<not> m < 10 \<longrightarrow> ds = digits (m div 10)"
    using digits_snoc [of m] by blast
  obtain es where n: "digits n = es @ [48 + n mod 10]" "es = [] \<longleftrightarrow> n < 10"
    "\<not> n < 10 \<longrightarrow> es = digits (n div 10)"
    using digits_snoc [of n] by blast
  from "1.prems" m(1) n(1) have e: "ds = es" "m mod 10 = n mod 10" by simp_all
  show ?case
  proof (cases "m < 10")
    case True
    then have "n < 10" using e m(2) n(2) by simp
    with True e(2) show ?thesis by simp
  next
    case False
    then have "\<not> n < 10" using e m(2) n(2) by simp
    then have "digits (m div 10) = digits (n div 10)" using False e m(3) n(3) by simp
    from "1.IH" [OF False this] have "m div 10 = n div 10" .
    with e(2) show ?thesis by (metis div_mult_mod_eq)
  qed
qed

lemma str_int_nat: "str_int (int i) = digits i"
  by (simp add: str_int_def)

lemma colons: "str ''::'' = [58, 58]"
  by (simp add: str_def)

lemma chunk_id_index: "chunk_id d i = chunk_id d j \<Longrightarrow> i = j"
  by (simp add: chunk_id_def str_int_nat digits_inj)

lemma split_at_first:
  "x \<notin> set xs \<Longrightarrow> x \<notin> set ys \<Longrightarrow> xs @ x # us = ys @ x # vs \<Longrightarrow> xs = ys \<and> us = vs"
proof (induction xs arbitrary: ys)
  case Nil
  then show ?case by (cases ys) auto
next
  case (Cons a xs)
  then show ?case by (cases ys) auto
qed

lemma chunk_id_filename:
  assumes "chunk_id d i = chunk_id e j" and "length (doc_hash d) = length (doc_hash e)"
  shows "doc_filename d = doc_filename e"
proof -
  have c: "58 \<notin> set (rev (digits i))" "58 \<notin> set (rev (digits j))"
    using digits_range [of 58] by auto
  have "rev (chunk_id d i) = rev (chunk_id e j)" using assms(1) by simp
  then have "rev (digits i) @ 58 # (58 # rev (doc_hash d) @ [58, 58] @ rev (doc_filename d))
           = rev (digits j) @ 58 # (58 # rev (doc_hash e) @ [58, 58] @ rev (doc_filename e))"
    by (simp add: chunk_id_def str_int_nat colons)
  with c have "rev (digits i) = rev (digits j) \<and>
           58 # rev (doc_hash d) @ [58, 58] @ rev (doc_filename d)
           = 58 # rev (doc_hash e) @ [58, 58] @ rev (doc_filename e)"
    by (rule split_at_first)
  then have "58 # rev (doc_hash d) @ [58, 58] @ rev (doc_filename d)
           = 58 # rev (doc_hash e) @ [58, 58] @ rev (doc_filename e)" ..
  then have "rev (doc_hash d) @ ([58, 58] @ rev (doc_filename d))
           = rev (doc_hash e) @ ([58, 58] @ rev (doc_filename e))" by simp
  then have "[58, 58] @ rev (doc_filename d) = [58, 58] @ rev (doc_filename e)"
    using assms(2) by (subst (asm) append_eq_append_conv) simp_all
  then show ?thesis by simp
qed

lemma add_chunks_rows:
  "row_ids (add_chunks d i chunks rows) = row_ids rows @ map (chunk_id d) [i ..< i + length chunks] \<and>
   row_texts (add_chunks d i chunks rows) = row_texts rows @ chunks \<and>
   length (row_metadatas (add_chunks d i chunks rows)) = length (row_metadatas rows) + length chunks"
proof (induction chunks arbitrary: i rows)
  case Nil
  then show ?case by simp
next
  case (Cons chunk chunks)
  have "[i ..< i + length (chunk # chunks)] = i # [Suc i ..< Suc i + length chunks]"
    by (simp add: upt_rec)
  then show ?case using Cons.IH [of "Suc i"] by (simp add: Let_def)
qed

lemma doc_chunks_Some: "chunk_text (doc_text d) = Some (doc_chunks d)"
  using chunk_text_total [of "doc_text d"] by (auto simp: doc_chunks_def)

lemma index_docs_rows:
  "\<exists>rows'. index_docs docs rows = Some rows' \<and>
     row_ids rows' = row_ids rows @
        concat (map (\<lambda>d. map (chunk_id d) [0 ..< length (doc_chunks d)]) docs) \<and>
     row_texts rows' = row_texts rows @ concat (map doc_chunks docs)"
proof (induction docs arbitrary: rows)
  case Nil
  then show ?case by simp
next
  case (Cons d docs)
  from Cons.IH [of "add_chunks d 0 (doc_chunks d) rows"] obtain rows' where
    "index_docs docs (add_chunks d 0 (doc_chunks d) rows) = Some rows'"
    "row_ids rows' = row_ids (add_chunks d 0 (doc_chunks d) rows) @
        concat (map (\<lambda>d. map (chunk_id d) [0 ..< length (doc_chunks d)]) docs)"
    "row_texts rows' = row_texts (add_chunks d 0 (doc_chunks d) rows) @ concat (map doc_chunks docs)"
    by blast
  then show ?case by (simp add: doc_chunks_Some add_chunks_rows)
qed

lemma ids_distinct:
  assumes "distinct (map doc_filename docs)"
    and "\<forall>d\<in>set docs. length (doc_hash d) = 16"
  shows "distinct (concat (map (\<lambda>d. map (chunk_id d) [0 ..< length (doc_chunks d)]) docs))"
  using assms
proof (induction docs)
  case Nil
  then show ?case by simp
next
  case (Cons d docs)
  have 1: "distinct (map (chunk_id d) [0 ..< length (doc_chunks d)])"
    by (auto simp: distinct_map intro!: inj_onI dest: chunk_id_index)
  have 2: "distinct (concat (map (\<lambda>d. map (chunk_id d) [0 ..< length (doc_chunks d)]) docs))"
    using Cons by simp
  have 3: "set (map (chunk_id d) [0 ..< length (doc_chunks d)]) \<inter>
           set (concat (map (\<lambda>d. map (chunk_id d) [0 ..< length (doc_chunks d)]) docs)) = {}"
  proof (rule ccontr)
    assume "\<not> ?thesis"
    then obtain i e j where e: "e \<in> set docs" "chunk_id d i = chunk_id e j" by auto
    have "length (doc_hash d) = length (doc_hash e)" using Cons.prems(2) e(1) by simp
    from chunk_id_filename [OF e(2) this] have "doc_filename d = doc_filename e" .
    with Cons.prems(1) e(1) show False by auto
  qed
  from 1 2 3 show ?case by simp
qed


lemma utf8_units_no_raise: "h \<noteq> Strict \<Longrightarrow> \<exists>t. utf8_units h bs = Inr t"
proof (induction h bs rule: utf8_units.induct)
  case (1 h)
  then show ?case by simp
next
  case (2 h b0 bs)
  have d: "\<And>c r. (\<exists>t. r = Inr t) \<Longrightarrow> \<exists>t. decoded c r = Inr t"
    by (auto simp: decoded_def)
  have u: "\<And>r. (\<exists>t. r = Inr t) \<Longrightarrow> \<exists>t. undecodable h r = Inr t"
    using "2.prems" by (cases h) (auto simp: undecodable_def decoded_def)
  show ?case
    using "2.IH" "2.prems" d u
    by (simp split: list.split)
qed

lemma read_text_text_of: "read_text data = Inr (text_of data)"
proof -
  obtain t where "utf8_decode Ignore data = Inr t"
    using utf8_units_no_raise [of Ignore] by (auto simp: utf8_decode_def)
  then show ?thesis by (simp add: read_text_def text_of_def)
qed

lemma load_loop_eq:
  "load_loop sha256_hex paths docs = Inr (docs @ map (doc_of sha256_hex) (filter eligible paths))"
proof (induction paths arbitrary: docs)
  case Nil
  then show ?case by simp
next
  case (Cons p paths)
  obtain path node where p: "p = (path, node)" by (cases p)
  show ?case
  proof (cases node)
    case (Directory entries)
    then show ?thesis using Cons.IH by (simp add: p)
  next
    case (RegularFile data)
    then show ?thesis using Cons.IH by (simp add: p read_text_text_of)
  qed
qed

lemma basename_join:
  assumes "name \<noteq> []" and "47 \<notin> set name"
  shows "basename (path_join kb_dir name) = name"
proof -
  have n: "takeWhile (\<lambda>c. c \<noteq> 47) (rev name @ 47 # xs) = rev name" for xs
    using assms(2) by (subst takeWhile_append2) auto
  have n0: "takeWhile (\<lambda>c. c \<noteq> 47) (rev name) = rev name"
    using assms(2) by (auto simp: takeWhile_eq_all_conv)
  have h: "hd name \<noteq> 47" using assms by (cases name) auto
  show ?thesis
  proof (cases "kb_dir = []")
    case True
    then have "path_join kb_dir name = name" using assms h by (simp add: path_join_def)
    then show ?thesis by (simp only: basename_def n0 rev_rev_ident)
  next
    case False
    then obtain ys where k: "rev kb_dir = last kb_dir # ys"
      by (cases kb_dir rule: rev_cases) auto
    show ?thesis
    proof (cases "last kb_dir = 47")
      case True
      then show ?thesis using assms h False n [of ys] k
        by (simp add: basename_def path_join_def)
    next
      case False
      then show ?thesis using assms h \<open>kb_dir \<noteq> []\<close> n [of "rev kb_dir"]
        by (simp add: basename_def path_join_def)
    qed
  qed
qed

lemma glob_star_names:
  assumes "valid_entries entries"
  shows "distinct (map (basename \<circ> fst) (glob_star kb_dir (Some (Directory entries))))"
    and "(path, node) \<in> set (glob_star kb_dir (Some (Directory entries))) \<Longrightarrow>
           (basename path, node) \<in> set entries"
proof -
  let ?vis = "filter (\<lambda>(name, node). name \<noteq> [] \<and> hd name \<noteq> 46) entries"
  have b: "basename (path_join kb_dir name) = name" if "(name, node) \<in> set entries" for name node
    using assms that by (intro basename_join) (force simp: valid_entries_def)+
  have "map (basename \<circ> fst) (glob_star kb_dir (Some (Directory entries))) = map fst ?vis"
    using b by (auto simp: glob_star_def)
  moreover have "distinct (map fst ?vis)"
    using assms by (simp add: valid_entries_def distinct_map_filter)
  ultimately show "distinct (map (basename \<circ> fst) (glob_star kb_dir (Some (Directory entries))))"
    by simp
  show "(basename path, node) \<in> set entries"
    if "(path, node) \<in> set (glob_star kb_dir (Some (Directory entries)))"
    using that b by (auto simp: glob_star_def)
qed


text \<open>
  Claim C3. Take any directory of the file system (its entries have pairwise different
  names without a slash) and a digest of 64 hex digits. Then the documents load, the
  loop over them returns, every id it produces is
  \<open>filename::content_hash::chunk_index\<close>, listed document by document and chunk by
  chunk, where the content hash of a document is the first 16 characters of the digest
  of the bytes of its file, 16 hex digits, and the ids of the build are pairwise
  different.
\<close>

theorem chunk_ids_distinct:
  assumes "hex_digest sha256_hex" and "valid_entries entries"
  shows "\<exists>docs rows.
     load_docs sha256_hex kb_dir (Some (Directory entries)) = Inr docs \<and>
     index_docs docs \<lparr>row_ids = [], row_texts = [], row_metadatas = []\<rparr> = Some rows \<and>
     row_ids rows =
       concat (map (\<lambda>d. map (\<lambda>i. doc_filename d @ str ''::'' @ doc_hash d @ str ''::'' @
                                   str_int (int i))
                          [0 ..< length (doc_chunks d)]) docs) \<and>
     row_texts rows = concat (map doc_chunks docs) \<and>
     (\<forall>d\<in>set docs. \<exists>data. (doc_filename d, RegularFile data) \<in> set entries \<and>
         doc_hash d = take 16 (sha256_hex data) \<and> length (doc_hash d) = 16 \<and>
         set (doc_hash d) \<subseteq> set (str ''0123456789abcdef'')) \<and>
     distinct (row_ids rows)"
proof -
  let ?paths = "glob_star kb_dir (Some (Directory entries))"
  let ?docs = "map (doc_of sha256_hex) (filter eligible ?paths)"
  have l: "load_docs sha256_hex kb_dir (Some (Directory entries)) = Inr ?docs"
    by (simp add: load_docs_def load_loop_eq)
  obtain rows where r:
    "index_docs ?docs \<lparr>row_ids = [], row_texts = [], row_metadatas = []\<rparr> = Some rows"
    "row_ids rows = concat (map (\<lambda>d. map (chunk_id d) [0 ..< length (doc_chunks d)]) ?docs)"
    "row_texts rows = concat (map doc_chunks ?docs)"
    using index_docs_rows [of ?docs "\<lparr>row_ids = [], row_texts = [], row_metadatas = []\<rparr>"]
    by auto
  have h: "length (take 16 (sha256_hex data)) = 16 \<and>
           set (take 16 (sha256_hex data)) \<subseteq> set (str ''0123456789abcdef'')" for data
    using assms(1) set_take_subset [of 16 "sha256_hex data"] by (auto simp: hex_digest_def)
  have d: "\<exists>data. (doc_filename d, RegularFile data) \<in> set entries \<and>
         doc_hash d = take 16 (sha256_hex data) \<and> length (doc_hash d) = 16 \<and>
         set (doc_hash d) \<subseteq> set (str ''0123456789abcdef'')" if "d \<in> set ?docs" for d
  proof -
    from that obtain path node where p: "(path, node) \<in> set ?paths" "eligible (path, node)"
      "d = doc_of sha256_hex (path, node)" by auto
    from p(2) obtain data where n: "node = RegularFile data" by (cases node) auto
    have "(basename path, RegularFile data) \<in> set entries"
      using glob_star_names(2) [OF assms(2)] p(1) n by simp
    then show ?thesis using h [of data] by (auto simp: p(3) n file_hash_def)
  qed
  have e: "map doc_filename ?docs = map (basename \<circ> fst) (filter eligible ?paths)"
    by auto
  have "distinct (map (basename \<circ> fst) (filter eligible ?paths))"
    using glob_star_names(1) [OF assms(2), of kb_dir] by (rule distinct_map_filter)
  then have f: "distinct (map doc_filename ?docs)"
    by (simp only: e)
  have "\<forall>d\<in>set ?docs. length (doc_hash d) = 16" using d by blast
  from ids_distinct [OF f this] have "distinct (row_ids rows)" by (simp add: r(2))
  moreover have "row_ids rows =
       concat (map (\<lambda>d. map (\<lambda>i. doc_filename d @ str ''::'' @ doc_hash d @ str ''::'' @
                                   str_int (int i))
                          [0 ..< length (doc_chunks d)]) ?docs)"
    unfolding r(2) chunk_id_def ..
  ultimately show ?thesis using l r(1,3) d by blast
qed

lemma toy_sha256_hex: "hex_digest toy_sha256"
  by (simp add: hex_digest_def toy_sha256_def str_def)

lemma demo_dir_valid: "valid_entries demo_dir"
  by (simp add: valid_entries_def demo_dir_def str_def)

lemma chunk_text_short:
  "text \<noteq> [] \<Longrightarrow> int (length text) \<le> 800 \<Longrightarrow>
     chunk_text text = Some (if strip text \<noteq> [] then [strip text] else [])"
  by (simp add: chunk_text_def chunk_text_with_def CHUNK_SIZE_def chunk_loop_last
      window_chunk_def py_slice_def slice_bound_def)

lemma demo_load:
  "load_docs toy_sha256 KB_DIR (Some (Directory demo_dir)) =
     Inr [\<lparr>doc_path = str ''kb_docs/a.md'', doc_filename = str ''a.md'', doc_text = str ''AB'',
            doc_hash = replicate 16 97\<rparr>,
          \<lparr>doc_path = str ''kb_docs/b.TXT'', doc_filename = str ''b.TXT'', doc_text = str ''C'',
            doc_hash = replicate 16 98\<rparr>]"
  by (simp add: load_docs_def glob_star_def demo_dir_def path_join_def KB_DIR_def str_def
      lower_def endswith_def read_text_def utf8_decode_def decoded_def basename_def
      file_hash_def toy_sha256_def)

lemma demo_index:
  "map_option row_ids
     (index_docs
        [\<lparr>doc_path = str ''kb_docs/a.md'', doc_filename = str ''a.md'', doc_text = str ''AB'',
            doc_hash = replicate 16 97\<rparr>,
          \<lparr>doc_path = str ''kb_docs/b.TXT'', doc_filename = str ''b.TXT'', doc_text = str ''C'',
            doc_hash = replicate 16 98\<rparr>]
        \<lparr>row_ids = [], row_texts = [], row_metadatas = []\<rparr>)
   = Some [str ''a.md::'' @ replicate 16 97 @ str ''::0'', str ''b.TXT::'' @ replicate 16 98 @ str ''::0'']"
  by (simp add: chunk_text_short chunk_id_def str_int_def digits_small strip_def isspace_def
      str_def)

text \<open>The statement of C3 on the sample directory, with the stand-in digest.\<close>

theorem chunk_ids_distinct_witness:
  "hex_digest toy_sha256 \<and> valid_entries demo_dir \<and>
   (\<exists>docs rows.
     load_docs toy_sha256 KB_DIR (Some (Directory demo_dir)) = Inr docs \<and>
     index_docs docs \<lparr>row_ids = [], row_texts = [], row_metadatas = []\<rparr> = Some rows \<and>
     row_ids rows = [str ''a.md::'' @ replicate 16 97 @ str ''::0'', str ''b.TXT::'' @ replicate 16 98 @ str ''::0''] \<and>
     distinct (row_ids rows))"
proof -
  from chunk_ids_distinct [OF toy_sha256_hex demo_dir_valid, of KB_DIR]
  obtain docs rows where
    l: "load_docs toy_sha256 KB_DIR (Some (Directory demo_dir)) = Inr docs"
    and r: "index_docs docs \<lparr>row_ids = [], row_texts = [], row_metadatas = []\<rparr> = Some rows"
    and d: "distinct (row_ids rows)"
    by blast
  have "row_ids rows = [str ''a.md::'' @ replicate 16 97 @ str ''::0'', str ''b.TXT::'' @ replicate 16 98 @ str ''::0'']"
    using l r demo_index unfolding demo_load by simp
  then show ?thesis using l r d toy_sha256_hex demo_dir_valid by blast
qed

text \<open>
  Claim C4. When nothing is at \<open>KB_DIR\<close>, or something that is not a directory, the build
  ends with \<open>SystemExit\<close> and the message that the KB directory was not found (the
  specification's ConfigurationError); when the directory is there and no document
  loads from it, the build ends with \<open>SystemExit\<close> and the message that no documents
  were found (its NoDocumentsError). In both cases the store is in the state it was in
  before the run, whatever the embedder and the store client do when called.
\<close>

theorem build_aborts_before_store:
  "main sha256_hex ext None store = Some (Some (SystemExit kb_not_found), store) \<and>
   (\<not> isdir kb \<longrightarrow> main sha256_hex ext kb store = Some (Some (SystemExit kb_not_found), store)) \<and>
   (isdir kb \<longrightarrow> load_docs sha256_hex KB_DIR kb = Inr [] \<longrightarrow>
      main sha256_hex ext kb store = Some (Some (SystemExit no_documents), store))"
  by (simp add: main_def isdir_def)

lemma empty_dir_loads_nothing:
  "load_docs toy_sha256 KB_DIR
     (Some (Directory [(str ''empty.txt'', RegularFile []), (str ''notes.py'', RegularFile [65]),
                       (str ''sub'', Directory [])])) = Inr []"
  by (simp add: load_docs_def glob_star_def path_join_def KB_DIR_def str_def lower_def
      endswith_def read_text_def utf8_decode_def)

text \<open>
  The statement of C4 with a store that counts the calls made on it: no directory, a
  file in place of the directory, and a directory without any eligible non-empty file.
\<close>

theorem build_aborts_before_store_witness:
  "main toy_sha256 counting_store None 0 = Some (Some (SystemExit kb_not_found), 0) \<and>
   \<not> isdir (Some (RegularFile [])) \<and>
   main toy_sha256 counting_store (Some (RegularFile [])) 0
     = Some (Some (SystemExit kb_not_found), 0) \<and>
   isdir (Some (Directory [(str ''empty.txt'', RegularFile []), (str ''notes.py'', RegularFile [65]),
                           (str ''sub'', Directory [])])) \<and>
   main toy_sha256 counting_store
     (Some (Directory [(str ''empty.txt'', RegularFile []), (str ''notes.py'', RegularFile [65]),
                       (str ''sub'', Directory [])])) 0
     = Some (Some (SystemExit no_documents), 0)"
  using build_aborts_before_store [of toy_sha256 counting_store 0 "Some (RegularFile [])"]
    build_aborts_before_store [of toy_sha256 counting_store 0
      "Some (Directory [(str ''empty.txt'', RegularFile []), (str ''notes.py'', RegularFile [65]),
                        (str ''sub'', Directory [])])"]
    empty_dir_loads_nothing
  by (simp add: isdir_def)

text \<open>
  For comparison, a run that goes through on the sample directory: the counting store
  has then been called four times.
\<close>

lemma demo_build_runs:
  "main toy_sha256 counting_store (Some (Directory demo_dir)) 0 = Some (None, 4)"
  by (simp add: main_def isdir_def demo_load chunk_text_short strip_def isspace_def str_def
      counting_store_def create_and_add_def Let_def)

section \<open>Properties of reading files\<close>

lemma utf8_units_one:
  "c < 128 \<Longrightarrow> utf8_units h (utf8_char c @ rest) = decoded c (utf8_units h rest)"
  by (simp add: utf8_char_def)

lemma utf8_units_two:
  assumes "128 \<le> c" "c < 2048"
  shows "utf8_units h (utf8_char c @ rest) = decoded c (utf8_units h rest)"
proof -
  define q r where "q = c div 64" and "r = c mod 64"
  have c: "c = q * 64 + r" and r: "r < 64" and q: "2 \<le> q" "q < 32"
    using assms by (auto simp: q_def r_def)
  have "utf8_char c = [192 + q, 128 + r]"
    using assms by (simp add: utf8_char_def q_def r_def)
  then show ?thesis using q r by (simp add: continuation_def c)
qed

lemma utf8_units_three:
  assumes "2048 \<le> c" "c < 65536" "\<not> (55296 \<le> c \<and> c < 57344)"
  shows "utf8_units h (utf8_char c @ rest) = decoded c (utf8_units h rest)"
proof -
  define p q r where "p = c div 4096" and "q = c div 64 mod 64" and "r = c mod 64"
  have "c div 64 div 64 = p" unfolding p_def by (simp add: div_mult2_eq [symmetric])
  then have "c div 64 = p * 64 + q" unfolding q_def using div_mult_mod_eq [of "c div 64" 64] by simp
  then have c: "c = p * 4096 + q * 64 + r"
    unfolding r_def using div_mult_mod_eq [of c 64] by simp
  have r: "r < 64" and q: "q < 64" and p: "p < 16"
    using assms by (auto simp: p_def q_def r_def)
  have lo: "p = 0 \<Longrightarrow> 32 \<le> q" using assms(1) c r q by linarith
  have hi: "p = 13 \<Longrightarrow> q < 32" using assms(3) c r q by linarith
  have "utf8_char c = [224 + p, 128 + q, 128 + r]"
    using assms by (simp add: utf8_char_def p_def q_def r_def)
  then show ?thesis using p q r lo hi
    by (auto simp: continuation_def second_of_three_def c)
qed

lemma utf8_units_four:
  assumes "65536 \<le> c" "c < 1114112"
  shows "utf8_units h (utf8_char c @ rest) = decoded c (utf8_units h rest)"
proof -
  define p q r s where "p = c div 262144" and "q = c div 4096 mod 64"
    and "r = c div 64 mod 64" and "s = c mod 64"
  have "c div 4096 div 64 = p" unfolding p_def by (simp add: div_mult2_eq [symmetric])
  then have 1: "c div 4096 = p * 64 + q"
    unfolding q_def using div_mult_mod_eq [of "c div 4096" 64] by simp
  have "c div 64 div 64 = c div 4096" by (simp add: div_mult2_eq [symmetric])
  then have "c div 64 = (p * 64 + q) * 64 + r"
    unfolding r_def using div_mult_mod_eq [of "c div 64" 64] 1 by simp
  then have c: "c = p * 262144 + q * 4096 + r * 64 + s"
    unfolding s_def using div_mult_mod_eq [of c 64] by simp
  have s: "s < 64" and r: "r < 64" and q: "q < 64" and p: "p < 5"
    using assms by (auto simp: p_def q_def r_def s_def)
  have lo: "p = 0 \<Longrightarrow> 16 \<le> q" using assms(1) c r s q by linarith
  have hi: "p = 4 \<Longrightarrow> q < 16" using assms(2) c r s q by linarith
  have "utf8_char c = [240 + p, 128 + q, 128 + r, 128 + s]"
    using assms by (simp add: utf8_char_def p_def q_def r_def s_def)
  then show ?thesis using p q r s lo hi
    by (auto simp: continuation_def second_of_four_def c)
qed

lemma utf8_units_char:
  "scalar c \<Longrightarrow> utf8_units h (utf8_char c @ rest) = decoded c (utf8_units h rest)"
  using utf8_units_one [of c] utf8_units_two [of c] utf8_units_three [of c] utf8_units_four [of c]
  unfolding scalar_def by (metis not_le_imp_less)

text \<open>
  With the handler \<open>ignore\<close> the decoder goes by the steps of \<open>utf8_step\<close>. A step gives
  a character exactly where the UTF-8 form of a code point begins; otherwise it drops a
  lead byte with the continuation bytes it could take, and every byte of such a stretch
  is one where no form begins.
\<close>

lemma step_units:
  "utf8_units Ignore (b0 # bs) =
     (case utf8_step b0 bs of (Char c, rest) \<Rightarrow> decoded c (utf8_units Ignore rest)
      | (Dropped xs, rest) \<Rightarrow> utf8_units Ignore rest)"
  by (simp add: utf8_step_def undecodable_def split: list.split)

lemma step_dropped_bytes:
  "utf8_step b0 bs = (Dropped xs, rest) \<Longrightarrow>
     xs @ rest = b0 # bs \<and> xs \<noteq> [] \<and> (\<forall>x\<in>set (tl xs). continuation x)"
  by (auto simp: utf8_step_def second_of_three_def second_of_four_def
      split: if_splits list.splits)

lemma step_one: "c < 128 \<Longrightarrow> utf8_char c @ rest = b0 # bs \<Longrightarrow> utf8_step b0 bs = (Char c, rest)"
  by (auto simp: utf8_char_def utf8_step_def)

lemma step_two:
  assumes "128 \<le> c" "c < 2048" and e: "utf8_char c @ rest = b0 # bs"
  shows "utf8_step b0 bs = (Char c, rest)"
proof -
  define q r where "q = c div 64" and "r = c mod 64"
  have c: "c = q * 64 + r" and r: "r < 64" and q: "2 \<le> q" "q < 32"
    using assms by (auto simp: q_def r_def)
  have "utf8_char c = [192 + q, 128 + r]"
    using assms by (simp add: utf8_char_def q_def r_def)
  with e have "b0 = 192 + q" "bs = (128 + r) # rest" by simp_all
  then show ?thesis using q r by (simp add: utf8_step_def continuation_def c)
qed

lemma step_three:
  assumes "2048 \<le> c" "c < 65536" "\<not> (55296 \<le> c \<and> c < 57344)"
    and e: "utf8_char c @ rest = b0 # bs"
  shows "utf8_step b0 bs = (Char c, rest)"
proof -
  define p q r where "p = c div 4096" and "q = c div 64 mod 64" and "r = c mod 64"
  have "c div 64 div 64 = p" unfolding p_def by (simp add: div_mult2_eq [symmetric])
  then have "c div 64 = p * 64 + q" unfolding q_def using div_mult_mod_eq [of "c div 64" 64] by simp
  then have c: "c = p * 4096 + q * 64 + r"
    unfolding r_def using div_mult_mod_eq [of c 64] by simp
  have r: "r < 64" and q: "q < 64" and p: "p < 16"
    using assms by (auto simp: p_def q_def r_def)
  have lo: "p = 0 \<longrightarrow> 32 \<le> q" using assms(1) c r q by linarith
  have hi: "p = 13 \<longrightarrow> q < 32" using assms(3) c r q by linarith
  have "utf8_char c = [224 + p, 128 + q, 128 + r]"
    using assms by (simp add: utf8_char_def p_def q_def r_def)
  with e have "b0 = 224 + p" "bs = (128 + q) # (128 + r) # rest" by simp_all
  then show ?thesis using p q r lo hi
    by (auto simp: utf8_step_def continuation_def second_of_three_def c)
qed

lemma step_four:
  assumes "65536 \<le> c" "c < 1114112" and e: "utf8_char c @ rest = b0 # bs"
  shows "utf8_step b0 bs = (Char c, rest)"
proof -
  define p q r s where "p = c div 262144" and "q = c div 4096 mod 64"
    and "r = c div 64 mod 64" and "s = c mod 64"
  have "c div 4096 div 64 = p" unfolding p_def by (simp add: div_mult2_eq [symmetric])
  then have 1: "c div 4096 = p * 64 + q"
    unfolding q_def using div_mult_mod_eq [of "c div 4096" 64] by simp
  have "c div 64 div 64 = c div 4096" by (simp add: div_mult2_eq [symmetric])
  then have "c div 64 = (p * 64 + q) * 64 + r"
    unfolding r_def using div_mult_mod_eq [of "c div 64" 64] 1 by simp
  then have c: "c = p * 262144 + q * 4096 + r * 64 + s"
    unfolding s_def using div_mult_mod_eq [of c 64] by simp
  have s: "s < 64" and r: "r < 64" and q: "q < 64" and p: "p < 5"
    using assms by (auto simp: p_def q_def r_def s_def)
  have lo: "p = 0 \<longrightarrow> 16 \<le> q" using assms(1) c r s q by linarith
  have hi: "p = 4 \<longrightarrow> q < 16" using assms(2) c r s q by linarith
  have "utf8_char c = [240 + p, 128 + q, 128 + r, 128 + s]"
    using assms by (simp add: utf8_char_def p_def q_def r_def s_def)
  with e have "b0 = 240 + p" "bs = (128 + q) # (128 + r) # (128 + s) # rest" by simp_all
  then show ?thesis using p q r s lo hi
    by (auto simp: utf8_step_def continuation_def second_of_four_def c)
qed

lemma step_char:
  "scalar c \<Longrightarrow> utf8_char c @ rest = b0 # bs \<Longrightarrow> utf8_step b0 bs = (Char c, rest)"
  using step_one [of c rest b0 bs] step_two [of c rest b0 bs] step_three [of c rest b0 bs]
    step_four [of c rest b0 bs]
  unfolding scalar_def by (metis not_le_imp_less)

lemma step_dropped_no_char:
  "utf8_step b0 bs = (Dropped xs, rest) \<Longrightarrow> \<not> begins_char (b0 # bs)"
  by (auto simp: begins_char_def dest: step_char [OF _ sym])

lemma continuation_no_char: "continuation b \<Longrightarrow> \<not> begins_char (b # bs)"
proof -
  assume "continuation b"
  then have "utf8_step b bs = (Dropped [b], bs)" by (simp add: utf8_step_def continuation_def)
  then show ?thesis by (rule step_dropped_no_char)
qed

lemma no_char_Nil: "\<not> begins_char []"
  by (auto simp: begins_char_def utf8_char_def)


lemma divmod_digit: "r < (m::nat) \<Longrightarrow> (t * m + r) div m = t \<and> (t * m + r) mod m = r"
  by simp

lemma char_two:
  assumes "2 \<le> p" "p < 32" "q < 64"
  shows "scalar (p * 64 + q) \<and> utf8_char (p * 64 + q) = [192 + p, 128 + q]"
proof -
  define c where "c = p * 64 + q"
  have "c div 64 = p" "c mod 64 = q" using assms by (simp_all add: c_def)
  moreover have "128 \<le> c" "c < 2048" using assms by (simp_all add: c_def)
  ultimately show ?thesis unfolding c_def [symmetric] by (simp add: utf8_char_def scalar_def)
qed

lemma char_three:
  assumes "p < 16" "q < 64" "r < 64" "p = 0 \<longrightarrow> 32 \<le> q" "p = 13 \<longrightarrow> q < 32"
  shows "scalar (p * 4096 + q * 64 + r) \<and>
         utf8_char (p * 4096 + q * 64 + r) = [224 + p, 128 + q, 128 + r]"
proof -
  define c where "c = p * 4096 + q * 64 + r"
  have e: "c = (p * 64 + q) * 64 + r" by (simp add: c_def)
  have 1: "c div 64 = p * 64 + q" "c mod 64 = r"
    using divmod_digit [OF assms(3), of "p * 64 + q"] by (simp_all only: e)
  have 2: "c div 64 mod 64 = q" "c div 64 div 64 = p"
    using divmod_digit [OF assms(2), of p] by (simp_all only: 1)
  have "c div 4096 = c div 64 div 64" by (simp add: div_mult2_eq [symmetric])
  then have 3: "c div 4096 = p" using 2 by simp
  have lo: "2048 \<le> c" using assms unfolding c_def by (cases "p = 0") simp_all
  have hi: "c < 65536" using assms unfolding c_def by simp
  have su: "\<not> (55296 \<le> c \<and> c < 57344)"
  proof -
    consider "p \<le> 12" | "p = 13" | "14 \<le> p" by linarith
    then show ?thesis using assms unfolding c_def by cases simp_all
  qed
  show ?thesis unfolding c_def [symmetric] using lo hi su 1 2 3
    by (simp add: utf8_char_def scalar_def)
qed

lemma char_four:
  assumes "p < 5" "q < 64" "r < 64" "s < 64" "p = 0 \<longrightarrow> 16 \<le> q" "p = 4 \<longrightarrow> q < 16"
  shows "scalar (p * 262144 + q * 4096 + r * 64 + s) \<and>
         utf8_char (p * 262144 + q * 4096 + r * 64 + s) = [240 + p, 128 + q, 128 + r, 128 + s]"
proof -
  define c where "c = p * 262144 + q * 4096 + r * 64 + s"
  have e: "c = ((p * 64 + q) * 64 + r) * 64 + s" by (simp add: c_def)
  have 1: "c div 64 = (p * 64 + q) * 64 + r" "c mod 64 = s"
    using divmod_digit [OF assms(4), of "(p * 64 + q) * 64 + r"] by (simp_all only: e)
  have 2: "c div 64 mod 64 = r" "c div 64 div 64 = p * 64 + q"
    using divmod_digit [OF assms(3), of "p * 64 + q"] by (simp_all only: 1)
  have "c div 4096 = c div 64 div 64" by (simp add: div_mult2_eq [symmetric])
  then have 3: "c div 4096 = p * 64 + q" using 2 by simp
  have 4: "c div 4096 mod 64 = q" "c div 4096 div 64 = p"
    using divmod_digit [OF assms(2), of p] by (simp_all only: 3)
  have "c div 262144 = c div 4096 div 64" by (simp add: div_mult2_eq [symmetric])
  then have 5: "c div 262144 = p" using 4 by simp
  have lo: "65536 \<le> c" using assms unfolding c_def by (cases "p = 0") simp_all
  have hi: "c < 1114112" using assms unfolding c_def by (cases "p = 4") simp_all
  show ?thesis unfolding c_def [symmetric] using lo hi 1 2 3 4 5
    by (simp add: utf8_char_def scalar_def)
qed

lemma step_char_bytes:
  assumes "utf8_step b0 bs = (Char c, rest)"
  shows "scalar c \<and> utf8_char c @ rest = b0 # bs"
proof -
  consider "b0 < 128" | "128 \<le> b0" "b0 < 194 \<or> 244 < b0" | "194 \<le> b0" "b0 < 224"
    | "224 \<le> b0" "b0 < 240" | "240 \<le> b0" "b0 \<le> 244"
    by linarith
  then show ?thesis
  proof cases
    case 1
    then show ?thesis using assms by (auto simp: utf8_step_def utf8_char_def scalar_def)
  next
    case 2
    then show ?thesis using assms by (auto simp: utf8_step_def)
  next
    case 3
    then obtain b1 where b: "bs = b1 # rest" "continuation b1"
      "c = (b0 - 192) * 64 + (b1 - 128)"
      using assms by (auto simp: utf8_step_def split: list.splits if_splits)
    have "scalar c \<and> utf8_char c = [192 + (b0 - 192), 128 + (b1 - 128)]"
      unfolding b(3) using 3 b(2) by (intro char_two) (auto simp: continuation_def)
    then show ?thesis using 3 b by (simp add: continuation_def)
  next
    case 4
    then obtain b1 b2 where b: "bs = b1 # b2 # rest" "second_of_three b0 b1" "continuation b2"
      "c = (b0 - 224) * 4096 + (b1 - 128) * 64 + (b2 - 128)"
      using assms by (auto simp: utf8_step_def split: list.splits if_splits)
    have "scalar c \<and> utf8_char c = [224 + (b0 - 224), 128 + (b1 - 128), 128 + (b2 - 128)]"
      unfolding b(4) using 4 b(2,3)
      by (intro char_three) (auto simp: continuation_def second_of_three_def split: if_splits)
    then show ?thesis using 4 b by (simp add: continuation_def second_of_three_def)
  next
    case 5
    then obtain b1 b2 b3 where b: "bs = b1 # b2 # b3 # rest" "second_of_four b0 b1"
      "continuation b2" "continuation b3"
      "c = (b0 - 240) * 262144 + (b1 - 128) * 4096 + (b2 - 128) * 64 + (b3 - 128)"
      using assms by (auto simp: utf8_step_def split: list.splits if_splits)
    have "scalar c \<and> utf8_char c =
            [240 + (b0 - 240), 128 + (b1 - 128), 128 + (b2 - 128), 128 + (b3 - 128)]"
      unfolding b(5) using 5 b(2,3,4)
      by (intro char_four) (auto simp: continuation_def second_of_four_def split: if_splits)
    then show ?thesis using 5 b by (simp add: continuation_def second_of_four_def)
  qed
qed

lemma begins_char_step:
  "begins_char (b0 # bs) \<longleftrightarrow> (case fst (utf8_step b0 bs) of Char c \<Rightarrow> True | Dropped xs \<Rightarrow> False)"
proof (cases "utf8_step b0 bs")
  case (Pair pc rest)
  show ?thesis
  proof (cases pc)
    case (Char c)
    then have "scalar c \<and> utf8_char c @ rest = b0 # bs" using Pair step_char_bytes by simp
    then have "begins_char (b0 # bs)" unfolding begins_char_def by metis
    then show ?thesis using Pair Char by simp
  next
    case (Dropped xs)
    then show ?thesis using Pair step_dropped_no_char [of b0 bs xs rest] by simp
  qed
qed

lemma skip_continuations:
  "\<forall>x\<in>set xs. continuation x \<Longrightarrow> utf8_units Ignore (xs @ rest) = utf8_units Ignore rest"
proof (induction xs)
  case Nil
  then show ?case by simp
next
  case (Cons x xs)
  then have "utf8_step x (xs @ rest) = (Dropped [x], xs @ rest)"
    by (simp add: utf8_step_def continuation_def)
  then have "utf8_units Ignore (x # xs @ rest) = utf8_units Ignore (xs @ rest)"
    by (simp add: step_units del: utf8_units.simps)
  then show ?case using Cons by simp
qed

lemma skip_byte:
  assumes "\<not> begins_char (b # bs)"
  shows "utf8_units Ignore (b # bs) = utf8_units Ignore bs"
proof (cases "utf8_step b bs")
  case (Pair pc rest)
  show ?thesis
  proof (cases pc)
    case (Char c)
    then show ?thesis using assms Pair by (simp add: begins_char_step)
  next
    case (Dropped xs)
    then have x: "xs @ rest = b # bs" "xs \<noteq> []" "\<forall>x\<in>set (tl xs). continuation x"
      using Pair step_dropped_bytes [of b bs xs rest] by simp_all
    then have "bs = tl xs @ rest" by (cases xs) simp_all
    then have "utf8_units Ignore bs = utf8_units Ignore rest"
      using skip_continuations [OF x(3)] by simp
    moreover have "utf8_units Ignore (b # bs) = utf8_units Ignore rest"
      using Pair Dropped by (simp add: step_units del: utf8_units.simps)
    ultimately show ?thesis by simp
  qed
qed

lemma skip_all:
  "none_begins ys rest \<Longrightarrow> utf8_units Ignore (ys @ rest) = utf8_units Ignore rest"
proof (induction ys)
  case Nil
  then show ?case by simp
next
  case (Cons y ys)
  then show ?case using skip_byte [of y "ys @ rest"] by simp
qed

lemma cut_units:
  "cut_ok pieces \<Longrightarrow> utf8_units Ignore (piece_bytes pieces) = Inr (kept_chars pieces)"
proof (induction pieces rule: cut_ok.induct)
  case 1
  then show ?case by simp
next
  case (2 c pieces)
  then show ?case by (simp add: utf8_units_char decoded_def)
next
  case (3 bs pieces)
  then show ?case by (simp add: skip_all)
qed

lemma none_begins_stretch:
  assumes "\<not> begins_char (b # xs @ rest)" "\<forall>x\<in>set xs. continuation x"
  shows "none_begins (b # xs) rest"
proof -
  have "none_begins xs rest" using assms(2)
    by (induction xs) (simp_all add: continuation_no_char)
  then show ?thesis using assms(1) by simp
qed

lemma utf8_char_not_Nil: "utf8_char c \<noteq> []"
  by (simp add: utf8_char_def)

lemma cut_exists: "\<exists>pieces. piece_bytes pieces = bs \<and> cut_ok pieces"
proof (induction "length bs" arbitrary: bs rule: less_induct)
  case less
  show ?case
  proof (cases bs)
    case Nil
    have "piece_bytes [] = [] \<and> cut_ok []" by simp
    then show ?thesis unfolding Nil by blast
  next
    case (Cons b0 bs')
    obtain pc rest where st: "utf8_step b0 bs' = (pc, rest)" by (cases "utf8_step b0 bs'")
    show ?thesis
    proof (cases pc)
      case (Char c)
      then have c: "scalar c" "utf8_char c @ rest = bs"
        using st step_char_bytes [of b0 bs' c rest] Cons by simp_all
      then have "length rest < length bs" using utf8_char_not_Nil [of c]
        by (metis length_append length_greater_0_conv less_add_same_cancel2)
      then obtain pieces where "piece_bytes pieces = rest" "cut_ok pieces"
        using less by blast
      then have "piece_bytes (Char c # pieces) = bs \<and> cut_ok (Char c # pieces)"
        using c by simp
      then show ?thesis by blast
    next
      case (Dropped xs)
      then have x: "xs @ rest = bs" "xs \<noteq> []" "\<forall>x\<in>set (tl xs). continuation x"
        using st step_dropped_bytes [of b0 bs' xs rest] Cons by simp_all
      then have "length rest < length bs"
        by (metis length_append length_greater_0_conv less_add_same_cancel2)
      then obtain pieces where p: "piece_bytes pieces = rest" "cut_ok pieces"
        using less by blast
      have hd: "xs = b0 # tl xs" using x(1,2) Cons by (cases xs) simp_all
      have "\<not> begins_char (b0 # bs')" using st Dropped step_dropped_no_char by simp
      then have "\<not> begins_char (b0 # tl xs @ rest)" using x(1) hd Cons by (metis append_Cons)
      then have "none_begins (b0 # tl xs) rest" using x(3) by (rule none_begins_stretch)
      then have "none_begins xs rest" using hd by simp
      then have "piece_bytes (Dropped xs # pieces) = bs \<and> cut_ok (Dropped xs # pieces)"
        using p x by simp
      then show ?thesis by blast
    qed
  qed
qed

lemma read_text_cut:
  "piece_bytes pieces = map unat data \<Longrightarrow> cut_ok pieces \<Longrightarrow>
     read_text data = Inr (translate_newlines (kept_chars pieces))"
  using cut_units [of pieces] by (simp add: read_text_def utf8_decode_def)

lemma loaded_doc:
  assumes "(path, RegularFile data) \<in> set (glob_star kb_dir entry)"
    and "endswith (lower path) (str ''.md'') \<or> endswith (lower path) (str ''.txt'')"
    and "read_text data = Inr raw_text" "raw_text \<noteq> []"
  shows "\<exists>docs d. load_docs sha256_hex kb_dir entry = Inr docs \<and> d \<in> set docs \<and>
           doc_path d = path \<and> doc_text d = raw_text"
proof -
  have t: "text_of data = raw_text" using assms(3) by (simp add: text_of_def)
  then have "eligible (path, RegularFile data)" using assms(2,4) by simp
  then have "(path, RegularFile data) \<in> set (filter eligible (glob_star kb_dir entry))"
    using assms(1) by simp
  then have "doc_of sha256_hex (path, RegularFile data)
               \<in> set (map (doc_of sha256_hex) (filter eligible (glob_star kb_dir entry)))"
    unfolding set_map by (rule imageI)
  moreover have "doc_path (doc_of sha256_hex (path, RegularFile data)) = path"
    "doc_text (doc_of sha256_hex (path, RegularFile data)) = raw_text" using t by simp_all
  ultimately show ?thesis unfolding load_docs_def load_loop_eq by (metis append_Nil)
qed

lemma indexed_chunks:
  assumes "d \<in> set docs"
  shows "\<exists>rows chunks. index_docs docs \<lparr>row_ids = [], row_texts = [], row_metadatas = []\<rparr> = Some rows \<and>
           chunk_text (doc_text d) = Some chunks \<and> set chunks \<subseteq> set (row_texts rows)"
proof -
  obtain rows where r: "index_docs docs \<lparr>row_ids = [], row_texts = [], row_metadatas = []\<rparr> = Some rows"
    "row_texts rows = concat (map doc_chunks docs)"
    using index_docs_rows [of docs "\<lparr>row_ids = [], row_texts = [], row_metadatas = []\<rparr>"] by auto
  have "set (doc_chunks d) \<subseteq> set (row_texts rows)" unfolding r(2) using assms by auto
  then show ?thesis using r(1) doc_chunks_Some [of d] by blast
qed

text \<open>
  Forms that are cut off, too long, or of a surrogate are dropped whole: E2 82 and E9 BF
  (two bytes of a three-byte form), C0 80 (a two-byte form of U+0000) and ED A0 80 (the
  form that U+D800 would have), each before \<open>A\<close>.
\<close>

lemma cut_off_forms_dropped:
  "cut_ok [Dropped [226, 130], Char 65] \<and> read_text [226, 130, 65] = Inr [65] \<and>
   cut_ok [Dropped [233, 191], Char 65] \<and> read_text [233, 191, 65] = Inr [65] \<and>
   cut_ok [Dropped [192, 128], Char 65] \<and> read_text [192, 128, 65] = Inr [65] \<and>
   cut_ok [Dropped [237, 160, 128], Char 65] \<and> read_text [237, 160, 128, 65] = Inr [65]"
  by (simp add: scalar_def utf8_char_def begins_char_step utf8_step_def continuation_def
      second_of_three_def read_text_def utf8_decode_def decoded_def undecodable_def)

text \<open>
  Claim C5, amended. Loading never fails on the bytes of a file: \<open>load_docs\<close> returns
  for every directory. Every file has a cut into validly encoded characters and dropped
  stretches, and for every such cut the text read is the characters of the cut alone, in
  their order (with line ends translated): the bytes of the dropped stretches leave
  nothing in the text. If the file lies in the directory under a name ending in \<open>.md\<close>
  or \<open>.txt\<close> and that text is not empty, it is the text of a loaded document, and the
  chunks of that text are among the texts of the rows that are indexed.
\<close>

theorem load_docs_drops_undecodable:
  "(\<exists>docs. load_docs sha256_hex kb_dir entry = Inr docs) \<and>
   (\<exists>cut. piece_bytes cut = map unat data \<and> cut_ok cut) \<and>
   (piece_bytes pieces = map unat data \<and> cut_ok pieces \<longrightarrow>
      read_text data = Inr (translate_newlines (kept_chars pieces)) \<and>
      ((path, RegularFile data) \<in> set (glob_star kb_dir entry) \<and>
       (endswith (lower path) (str ''.md'') \<or> endswith (lower path) (str ''.txt'')) \<and>
       translate_newlines (kept_chars pieces) \<noteq> [] \<longrightarrow>
       (\<exists>docs d rows chunks.
          load_docs sha256_hex kb_dir entry = Inr docs \<and> d \<in> set docs \<and>
          doc_path d = path \<and> doc_text d = translate_newlines (kept_chars pieces) \<and>
          index_docs docs \<lparr>row_ids = [], row_texts = [], row_metadatas = []\<rparr> = Some rows \<and>
          chunk_text (doc_text d) = Some chunks \<and> set chunks \<subseteq> set (row_texts rows))))"
proof (intro conjI impI)
  show "\<exists>docs. load_docs sha256_hex kb_dir entry = Inr docs"
    by (simp add: load_docs_def load_loop_eq)
  show "\<exists>cut. piece_bytes cut = map unat data \<and> cut_ok cut"
    by (rule cut_exists)
next
  assume c: "piece_bytes pieces = map unat data \<and> cut_ok pieces"
  then show r: "read_text data = Inr (translate_newlines (kept_chars pieces))"
    by (simp add: read_text_cut)
  assume "(path, RegularFile data) \<in> set (glob_star kb_dir entry) \<and>
          (endswith (lower path) (str ''.md'') \<or> endswith (lower path) (str ''.txt'')) \<and>
          translate_newlines (kept_chars pieces) \<noteq> []"
  then obtain docs d where d: "load_docs sha256_hex kb_dir entry = Inr docs" "d \<in> set docs"
    "doc_path d = path" "doc_text d = translate_newlines (kept_chars pieces)"
    using loaded_doc [OF _ _ r, of path kb_dir entry sha256_hex] by blast
  then show "\<exists>docs d rows chunks.
          load_docs sha256_hex kb_dir entry = Inr docs \<and> d \<in> set docs \<and>
          doc_path d = path \<and> doc_text d = translate_newlines (kept_chars pieces) \<and>
          index_docs docs \<lparr>row_ids = [], row_texts = [], row_metadatas = []\<rparr> = Some rows \<and>
          chunk_text (doc_text d) = Some chunks \<and> set chunks \<subseteq> set (row_texts rows)"
    using indexed_chunks [OF d(2)] by blast
qed

text \<open>
  The statement of C5, amended, on the sample file: \<open>A\<close>, byte FF, \<open>e\<close> with acute
  accent, the cut-off form E2 82, \<open>B\<close>.
\<close>

theorem load_docs_drops_undecodable_witness:
  "piece_bytes [Char 65, Dropped [255], Char 233, Dropped [226, 130], Char 66]
     = map unat broken_file \<and>
   cut_ok [Char 65, Dropped [255], Char 233, Dropped [226, 130], Char 66] \<and>
   read_text broken_file = Inr [65, 233, 66] \<and>
   (str ''kb_docs/a.txt'', RegularFile broken_file)
     \<in> set (glob_star KB_DIR (Some (Directory broken_dir))) \<and>
   endswith (lower (str ''kb_docs/a.txt'')) (str ''.txt'') \<and>
   (\<exists>docs d rows chunks.
      load_docs toy_sha256 KB_DIR (Some (Directory broken_dir)) = Inr docs \<and> d \<in> set docs \<and>
      doc_path d = str ''kb_docs/a.txt'' \<and> doc_text d = [65, 233, 66] \<and>
      index_docs docs \<lparr>row_ids = [], row_texts = [], row_metadatas = []\<rparr> = Some rows \<and>
      chunk_text (doc_text d) = Some chunks \<and> set chunks \<subseteq> set (row_texts rows))"
proof -
  let ?pieces = "[Char 65, Dropped [255], Char 233, Dropped [226, 130], Char 66]"
  have a: "piece_bytes ?pieces = map unat broken_file"
    by (simp add: utf8_char_def broken_file_def)
  have b: "cut_ok ?pieces"
    by (simp add: scalar_def utf8_char_def begins_char_step utf8_step_def continuation_def
        second_of_three_def)
  have c: "(str ''kb_docs/a.txt'', RegularFile broken_file)
             \<in> set (glob_star KB_DIR (Some (Directory broken_dir)))"
    by (simp add: glob_star_def broken_dir_def path_join_def KB_DIR_def str_def)
  have d: "endswith (lower (str ''kb_docs/a.txt'')) (str ''.txt'')"
    by (simp add: lower_def endswith_def str_def)
  have e: "translate_newlines (kept_chars ?pieces) = [65, 233, 66]" by simp
  show ?thesis
    using load_docs_drops_undecodable
            [of toy_sha256 KB_DIR "Some (Directory broken_dir)" broken_file ?pieces
                "str ''kb_docs/a.txt''"] a b c d
    unfolding e by blast
qed

text \<open>
  Claim C5, as the specification states it, does not hold: the file with the bytes
  \<open>A\<close>, FF, \<open>B\<close> loads as the text \<open>AB\<close> of two characters. No character stands for
  the byte FF, unlike in the text that replacing gives.
\<close>

theorem load_docs_replaces_refuted:
  "load_docs toy_sha256 KB_DIR (Some (Directory [(str ''a.txt'', RegularFile [65, 255, 66])])) =
     Inr [\<lparr>doc_path = str ''kb_docs/a.txt'', doc_filename = str ''a.txt'', doc_text = [65, 66],
           doc_hash = replicate 16 98\<rparr>] \<and>
   utf8_decode Replace [65, 255, 66] = Inr [65, 65533, 66] \<and>
   read_text [65, 255, 66] \<noteq> utf8_decode Replace [65, 255, 66]"
  by (simp add: load_docs_def glob_star_def path_join_def KB_DIR_def str_def
      lower_def endswith_def read_text_def utf8_decode_def decoded_def undecodable_def
      basename_def file_hash_def toy_sha256_def)

end
